theory Spec2Isabelle
  imports Main "HOL-Library.Word"
begin

section \<open>Machine types\<close>

text \<open>
  \<^verbatim>\<open>ftl/buffer.h\<close> instantiated as \<^verbatim>\<open>byte_buffer = BufferT<uint8_t>\<close> and
  \<^verbatim>\<open>byte_streambuffer = StreamBufferT<uint8_t>\<close> on a 64-bit target: an element is an
  8-bit word, \<^verbatim>\<open>size_t\<close> is a 64-bit word whose \<open>+\<close>, \<open>-\<close> and \<open>*\<close> wrap around.
\<close>

type_synonym byte = "8 word"
type_synonym size_t = "64 word"

text \<open>The exceptions of the library, and the one outcome C++ leaves undefined.\<close>

datatype error =
    OutOfRange        \<comment> \<open>\<^verbatim>\<open>std::out_of_range\<close>, thrown by \<^verbatim>\<open>xran\<close>\<close>
  | AllocationError   \<comment> \<open>\<^verbatim>\<open>std::bad_alloc\<close>, thrown by \<^verbatim>\<open>reserve\<close>\<close>
  | MemoryFault       \<comment> \<open>an access outside every live object: undefined behaviour\<close>

section \<open>Memory\<close>

text \<open>
  The store is a list of objects. An address is a position in the list, so that a new
  object never shares its address with an older one; a released object leaves \<open>None\<close>
  behind. A pointer is null, or names an object and a byte offset into it, or is
  \<open>Wild\<close>: what arithmetic on the null pointer gives. Both the blocks handed out by
  \<^verbatim>\<open>malloc\<close> and the arrays a caller owns live in this store.
\<close>

datatype pointer = Null | Ptr nat nat | Wild

record memory =
  blocks :: "byte list option list"
  max_alloc :: nat   \<comment> \<open>the largest request the allocator can satisfy\<close>

definition PTRDIFF_MAX :: nat where
  "PTRDIFF_MAX = 2 ^ 63 - 1"

definition block_at :: "memory \<Rightarrow> nat \<Rightarrow> byte list option" where
  "block_at m a = (if a < length (blocks m) then blocks m ! a else None)"

text \<open>Pointer arithmetic \<^verbatim>\<open>p + n\<close> with \<^verbatim>\<open>n\<close> of type \<^verbatim>\<open>size_t\<close>.\<close>

fun ptr_add :: "pointer \<Rightarrow> size_t \<Rightarrow> pointer" where
  "ptr_add Null n = (if n = 0 then Null else Wild)"
| "ptr_add (Ptr a off) n = Ptr a (off + unat n)"
| "ptr_add Wild n = Wild"

text \<open>
  Reading and writing a run of bytes through a pointer. A run of length 0 touches
  nothing; any other run must lie inside a live object.
\<close>

definition load :: "memory \<Rightarrow> pointer \<Rightarrow> nat \<Rightarrow> byte list option" where
  "load m p n =
     (if n = 0 then Some []
      else case p of
        Ptr a off \<Rightarrow>
          (case block_at m a of
             None \<Rightarrow> None
           | Some blk \<Rightarrow> if off + n \<le> length blk then Some (take n (drop off blk)) else None)
      | _ \<Rightarrow> None)"

definition store :: "memory \<Rightarrow> pointer \<Rightarrow> byte list \<Rightarrow> memory option" where
  "store m p bs =
     (if bs = [] then Some m
      else case p of
        Ptr a off \<Rightarrow>
          (case block_at m a of
             None \<Rightarrow> None
           | Some blk \<Rightarrow>
               if off + length bs \<le> length blk
               then Some (m\<lparr>blocks := (blocks m)
                            [a := Some (take off blk @ bs @ drop (off + length bs) blk)]\<rparr>)
               else None)
      | _ \<Rightarrow> None)"

text \<open>\<^verbatim>\<open>std::memcpy(dst, src, n)\<close> and \<^verbatim>\<open>std::memset(dst, val, n)\<close>.\<close>

definition memcpy :: "memory \<Rightarrow> pointer \<Rightarrow> pointer \<Rightarrow> nat \<Rightarrow> memory option" where
  "memcpy m dst src n = (case load m src n of None \<Rightarrow> None | Some bs \<Rightarrow> store m dst bs)"

definition memset :: "memory \<Rightarrow> pointer \<Rightarrow> byte \<Rightarrow> nat \<Rightarrow> memory option" where
  "memset m dst val n = store m dst (replicate n val)"

text \<open>
  The C allocator behind \<^verbatim>\<open>DefaultAllocator\<close>. A request succeeds when it is at most
  \<open>max_alloc\<close> and at most \<open>PTRDIFF_MAX\<close> (no object is larger); the bytes of new
  memory are indeterminate in C and fixed to 0 here. \<^verbatim>\<open>realloc\<close> of a live block moves
  it: the old block is released and its prefix copied. \<^verbatim>\<open>realloc(p, 0)\<close> releases \<^verbatim>\<open>p\<close>
  and returns null, and a failed \<^verbatim>\<open>realloc\<close> leaves the old block alone.
\<close>

definition allocate :: "memory \<Rightarrow> nat \<Rightarrow> pointer \<times> memory" where
  "allocate m n =
     (if n \<le> max_alloc m \<and> n \<le> PTRDIFF_MAX
      then (Ptr (length (blocks m)) 0, m\<lparr>blocks := blocks m @ [Some (replicate n 0)]\<rparr>)
      else (Null, m))"

fun deallocate :: "memory \<Rightarrow> pointer \<Rightarrow> memory" where
  "deallocate m (Ptr a off) = m\<lparr>blocks := (blocks m)[a := None]\<rparr>"
| "deallocate m p = m"

definition reallocate :: "memory \<Rightarrow> pointer \<Rightarrow> nat \<Rightarrow> pointer \<times> memory" where
  "reallocate m p n =
     (case p of
        Null \<Rightarrow> allocate m n
      | Ptr a off \<Rightarrow>
          (case block_at m a of
             None \<Rightarrow> (Null, m)
           | Some old \<Rightarrow>
               if n = 0 then (Null, deallocate m p)
               else if n \<le> max_alloc m \<and> n \<le> PTRDIFF_MAX
               then (Ptr (length (blocks m)) 0,
                     m\<lparr>blocks := (blocks m)[a := None]
                                   @ [Some (take n old @ replicate (n - length old) 0)]\<rparr>)
               else (Null, m))
      | Wild \<Rightarrow> (Null, m))"

section \<open>The growable container \<^verbatim>\<open>SimpleBufferT\<close>\<close>

text \<open>The data members; \<^verbatim>\<open>buf_\<close> is written \<open>buf_m\<close>, and so on.\<close>

record SimpleBufferT =
  buf_m :: pointer
  size_m :: size_t
  capacity_m :: size_t
  shrink_counter_m :: int
  ref_m :: bool

definition DEFAULT_SHRINK_TRIGGER_COUNT :: int where
  "DEFAULT_SHRINK_TRIGGER_COUNT = 2"

definition DEFAULT_MINI_SIZE :: size_t where
  "DEFAULT_MINI_SIZE = 32"

text \<open>
  A member function that mutates takes the memory and the object and returns the
  exception it threw, if any, with the memory and the object as it left them.
\<close>

type_synonym cstate = "memory \<times> SimpleBufferT"

text \<open>The default constructor.\<close>

definition SimpleBufferT_new :: SimpleBufferT where
  "SimpleBufferT_new =
     \<lparr>buf_m = Null, size_m = 0, capacity_m = 0, shrink_counter_m = 0, ref_m = False\<rparr>"

text \<open>The accessors \<^verbatim>\<open>begin()\<close>, \<^verbatim>\<open>size()\<close>, \<^verbatim>\<open>capacity()\<close> and \<^verbatim>\<open>empty()\<close>.\<close>

definition begin_of :: "SimpleBufferT \<Rightarrow> pointer" where
  "begin_of c = buf_m c"

definition size_of :: "SimpleBufferT \<Rightarrow> size_t" where
  "size_of c = size_m c"

definition capacity_of :: "SimpleBufferT \<Rightarrow> size_t" where
  "capacity_of c = capacity_m c"

definition empty_of :: "SimpleBufferT \<Rightarrow> bool" where
  "empty_of c = (size_m c = 0)"

text \<open>
  \<^verbatim>\<open>reserve\<close>: the capacity is assigned first; an owned block is reallocated, a borrowed
  one is copied into a new block (the copy runs before the null check) and the
  container becomes owned.
\<close>

definition reserve :: "size_t \<Rightarrow> cstate \<Rightarrow> error option \<times> cstate" where
  "reserve n s =
     (let (m, c) = s in
      if n > capacity_m c \<or> n < capacity_m c then
        let cap = (if n > capacity_m c
                   then max DEFAULT_MINI_SIZE (max n (2 * capacity_m c))
                   else n);
            c1 = c\<lparr>capacity_m := cap\<rparr>
        in if \<not> ref_m c1 then
             (case reallocate m (buf_m c1) (unat cap) of
                (Null, m') \<Rightarrow> (Some AllocationError, (m', c1))
              | (p, m') \<Rightarrow> (None, (m', c1\<lparr>buf_m := p\<rparr>)))
           else
             (case allocate m (unat cap) of
                (p, m1) \<Rightarrow>
                  (case memcpy m1 p (buf_m c1) (unat (size_m c1)) of
                     None \<Rightarrow> (Some MemoryFault, (m1, c1))
                   | Some m2 \<Rightarrow>
                       let c2 = c1\<lparr>ref_m := False\<rparr>
                       in if p = Null then (Some AllocationError, (m2, c2))
                          else (None, (m2, c2\<lparr>buf_m := p\<rparr>))))
      else (None, s))"

definition clear :: "cstate \<Rightarrow> cstate" where
  "clear s =
     (let (m, c) = s;
          m' = (if buf_m c \<noteq> Null \<and> \<not> ref_m c then deallocate m (buf_m c) else m)
      in (m', c\<lparr>buf_m := Null, size_m := 0, ref_m := False, capacity_m := 0,
                 shrink_counter_m := 0\<rparr>))"

definition resize :: "size_t \<Rightarrow> cstate \<Rightarrow> error option \<times> cstate" where
  "resize n s =
     (if n = 0 then
        (let (m, c) = clear s in (None, (m, c\<lparr>size_m := n\<rparr>)))
      else if n > capacity_m (snd s) then
        (case reserve n s of
           (Some e, s') \<Rightarrow> (Some e, s')
         | (None, (m, c)) \<Rightarrow> (None, (m, c\<lparr>size_m := n\<rparr>)))
      else (None, (fst s, (snd s)\<lparr>size_m := n\<rparr>)))"

definition shrink :: "cstate \<Rightarrow> error option \<times> cstate" where
  "shrink s =
     (let (m, c) = s in
      if size_m c > 0 \<and> size_m c < 2 * capacity_m c then
        let c1 = c\<lparr>shrink_counter_m := shrink_counter_m c + 1\<rparr>
        in if shrink_counter_m c1 > DEFAULT_SHRINK_TRIGGER_COUNT then
             (case reserve (size_m c1) (m, c1) of
                (Some e, s') \<Rightarrow> (Some e, s')
              | (None, (m', c')) \<Rightarrow> (None, (m', c'\<lparr>shrink_counter_m := 0\<rparr>)))
           else (None, (m, c1))
      else (None, (m, c\<lparr>shrink_counter_m := 0\<rparr>)))"

definition shrink_to_fit :: "cstate \<Rightarrow> error option \<times> cstate" where
  "shrink_to_fit s =
     (case (if size_m (snd s) > 0 then reserve (size_m (snd s)) s else (None, s)) of
        (Some e, s') \<Rightarrow> (Some e, s')
      | (None, (m, c)) \<Rightarrow> (None, (m, c\<lparr>shrink_counter_m := 0\<rparr>)))"

text \<open>
  The constructors \<^verbatim>\<open>SimpleBufferT(const_pointer buf, size_type size)\<close> and
  \<^verbatim>\<open>SimpleBufferT(size_t size, const _Ty& val)\<close>. The first assigns \<^verbatim>\<open>size_\<close> before it
  tests the pointer.
\<close>

definition SimpleBufferT_from_ptr :: "pointer \<Rightarrow> size_t \<Rightarrow> memory \<Rightarrow> error option \<times> cstate" where
  "SimpleBufferT_from_ptr buf n m =
     (let c = \<lparr>buf_m = Null, size_m = n, capacity_m = 0, shrink_counter_m = 0, ref_m = False\<rparr>
      in if buf \<noteq> Null \<and> n > 0 then
           (case reserve n (m, c) of
              (Some e, s) \<Rightarrow> (Some e, s)
            | (None, (m1, c1)) \<Rightarrow>
                let c2 = c1\<lparr>size_m := n\<rparr>
                in (case memcpy m1 (begin_of c2) buf (unat n) of
                      None \<Rightarrow> (Some MemoryFault, (m1, c2))
                    | Some m2 \<Rightarrow> (None, (m2, c2))))
         else (None, (m, c)))"

definition SimpleBufferT_filled :: "size_t \<Rightarrow> byte \<Rightarrow> memory \<Rightarrow> error option \<times> cstate" where
  "SimpleBufferT_filled n val m =
     (let c = \<lparr>buf_m = Null, size_m = n, capacity_m = 0, shrink_counter_m = 0, ref_m = False\<rparr>
      in case reserve n (m, c) of
           (Some e, s) \<Rightarrow> (Some e, s)
         | (None, (m1, c1)) \<Rightarrow>
             let c2 = c1\<lparr>size_m := n\<rparr>
             in (case memset m1 (begin_of c2) val (unat n) of
                   None \<Rightarrow> (Some MemoryFault, (m1, c2))
                 | Some m2 \<Rightarrow> (None, (m2, c2))))"

text \<open>\<^verbatim>\<open>ref(pointer buf, size_type size)\<close> wraps the caller's memory without a copy.\<close>

definition SimpleBufferT_ref :: "pointer \<Rightarrow> size_t \<Rightarrow> SimpleBufferT" where
  "SimpleBufferT_ref buf n =
     (let simple_buffer = SimpleBufferT_new
      in if buf \<noteq> Null \<and> n > 0
         then simple_buffer\<lparr>buf_m := buf, size_m := n, capacity_m := n, ref_m := True\<rparr>
         else simple_buffer)"

text \<open>
  Move assignment \<^verbatim>\<open>operator=(SimpleBufferT&& other)\<close>: the result is the object and
  what is left of \<open>other\<close>.
\<close>

definition move_assign :: "cstate \<Rightarrow> SimpleBufferT \<Rightarrow> cstate \<times> SimpleBufferT" where
  "move_assign s other =
     (if \<not> empty_of other then
        ((fst s, (snd s)\<lparr>buf_m := buf_m other, size_m := size_m other,
                         capacity_m := capacity_m other,
                         shrink_counter_m := shrink_counter_m other, ref_m := ref_m other\<rparr>),
         other\<lparr>buf_m := Null, size_m := 0, capacity_m := 0, ref_m := False,
               shrink_counter_m := 0\<rparr>)
      else (snd (resize 0 s), other))"

section \<open>The endian codec \<^verbatim>\<open>Endian\<close>\<close>

datatype Endianness = kBigEndian | kLittleEndian

text \<open>
  \<^verbatim>\<open>Swizzle(start, len)\<close>: \<open>s\<close> and \<open>e\<close> are the positions of \<^verbatim>\<open>start\<close> and \<^verbatim>\<open>end\<close> in the
  array; each round swaps the two bytes and moves both inwards.
\<close>

function swizzle_loop :: "byte list \<Rightarrow> nat \<Rightarrow> nat \<Rightarrow> byte list" where
  "swizzle_loop bs s e =
     (if s < e then swizzle_loop (bs[s := bs ! e, e := bs ! s]) (Suc s) (e - 1) else bs)"
  by pat_completeness auto
termination
  by (relation "measure (\<lambda>(bs, s, e). e - s)") auto

declare swizzle_loop.simps [simp del]

definition Swizzle :: "byte list \<Rightarrow> byte list" where
  "Swizzle bs = swizzle_loop bs 0 (length bs - 1)"

text \<open>
  The types \<^verbatim>\<open>is_endian_basictype\<close> admits, and their values. A \<^verbatim>\<open>float\<close> or \<^verbatim>\<open>double\<close> is
  its 32-bit or 64-bit pattern: the codec moves bytes and never computes with the number.
\<close>

datatype basictype =
  T_int16 | T_uint16 | T_int32 | T_uint32 | T_int64 | T_uint64 | T_float | T_double

datatype scalar =
    Int16 "16 word" | UInt16 "16 word"
  | Int32 "32 word" | UInt32 "32 word"
  | Int64 "64 word" | UInt64 "64 word"
  | Float "32 word" | Double "64 word"

fun sizeof :: "basictype \<Rightarrow> nat" where
  "sizeof T_int16 = 2"
| "sizeof T_uint16 = 2"
| "sizeof T_int32 = 4"
| "sizeof T_uint32 = 4"
| "sizeof T_int64 = 8"
| "sizeof T_uint64 = 8"
| "sizeof T_float = 4"
| "sizeof T_double = 8"

fun type_of :: "scalar \<Rightarrow> basictype" where
  "type_of (Int16 w) = T_int16"
| "type_of (UInt16 w) = T_uint16"
| "type_of (Int32 w) = T_int32"
| "type_of (UInt32 w) = T_uint32"
| "type_of (Int64 w) = T_int64"
| "type_of (UInt64 w) = T_uint64"
| "type_of (Float w) = T_float"
| "type_of (Double w) = T_double"

text \<open>
  The \<^verbatim>\<open>union NoAlias\<close> of \<^verbatim>\<open>Endian::read\<close> and \<^verbatim>\<open>Endian::write\<close> overlays a value with
  its bytes in memory. On a little-endian host the least significant byte comes first,
  on a big-endian host last.
\<close>

fun le_bytes :: "nat \<Rightarrow> 'a::len word \<Rightarrow> byte list" where
  "le_bytes 0 w = []"
| "le_bytes (Suc n) w = ucast w # le_bytes n (drop_bit 8 w)"

fun le_value :: "byte list \<Rightarrow> 'a::len word" where
  "le_value [] = 0"
| "le_value (b # bs) = or (ucast b) (push_bit 8 (le_value bs))"

fun scalar_le_bytes :: "scalar \<Rightarrow> byte list" where
  "scalar_le_bytes (Int16 w) = le_bytes 2 w"
| "scalar_le_bytes (UInt16 w) = le_bytes 2 w"
| "scalar_le_bytes (Int32 w) = le_bytes 4 w"
| "scalar_le_bytes (UInt32 w) = le_bytes 4 w"
| "scalar_le_bytes (Int64 w) = le_bytes 8 w"
| "scalar_le_bytes (UInt64 w) = le_bytes 8 w"
| "scalar_le_bytes (Float w) = le_bytes 4 w"
| "scalar_le_bytes (Double w) = le_bytes 8 w"

fun scalar_le_value :: "basictype \<Rightarrow> byte list \<Rightarrow> scalar" where
  "scalar_le_value T_int16 bs = Int16 (le_value bs)"
| "scalar_le_value T_uint16 bs = UInt16 (le_value bs)"
| "scalar_le_value T_int32 bs = Int32 (le_value bs)"
| "scalar_le_value T_uint32 bs = UInt32 (le_value bs)"
| "scalar_le_value T_int64 bs = Int64 (le_value bs)"
| "scalar_le_value T_uint64 bs = UInt64 (le_value bs)"
| "scalar_le_value T_float bs = Float (le_value bs)"
| "scalar_le_value T_double bs = Double (le_value bs)"

text \<open>\<open>union_bytes host v\<close> is \<^verbatim>\<open>na.bytes\<close> after \<^verbatim>\<open>na.val = v\<close>; \<open>union_val\<close> goes back.\<close>

definition union_bytes :: "Endianness \<Rightarrow> scalar \<Rightarrow> byte list" where
  "union_bytes host v =
     (case host of kLittleEndian \<Rightarrow> scalar_le_bytes v | kBigEndian \<Rightarrow> rev (scalar_le_bytes v))"

definition union_val :: "Endianness \<Rightarrow> basictype \<Rightarrow> byte list \<Rightarrow> scalar" where
  "union_val host ty bs =
     (case host of kLittleEndian \<Rightarrow> scalar_le_value ty bs
                 | kBigEndian \<Rightarrow> scalar_le_value ty (rev bs))"

text \<open>
  \<^verbatim>\<open>detect_big_endian\<close> looks at the first byte of \<^verbatim>\<open>0x01020304\<close>; \<^verbatim>\<open>CurrentEndian\<close> keeps
  the answer. \<open>host\<close> is the byte order of the machine the program runs on.
\<close>

definition detect_big_endian :: "Endianness \<Rightarrow> bool" where
  "detect_big_endian host = (union_bytes host (UInt32 0x01020304) ! 0 = 1)"

definition CurrentEndian :: "Endianness \<Rightarrow> Endianness" where
  "CurrentEndian host = (if detect_big_endian host = True then kBigEndian else kLittleEndian)"

definition Endian_read ::
  "Endianness \<Rightarrow> basictype \<Rightarrow> Endianness \<Rightarrow> memory \<Rightarrow> pointer \<Rightarrow> error + scalar" where
  "Endian_read host ty endianness m buf =
     (case load m buf (sizeof ty) of
        None \<Rightarrow> Inl MemoryFault
      | Some bytes \<Rightarrow>
          Inr (union_val host ty
                 (if CurrentEndian host \<noteq> endianness then Swizzle bytes else bytes)))"

definition Endian_write ::
  "Endianness \<Rightarrow> Endianness \<Rightarrow> memory \<Rightarrow> pointer \<Rightarrow> scalar \<Rightarrow> error + memory" where
  "Endian_write host endianness m buf v =
     (let bytes = union_bytes host v;
          bytes = (if CurrentEndian host \<noteq> endianness then Swizzle bytes else bytes)
      in case store m buf bytes of None \<Rightarrow> Inl MemoryFault | Some m' \<Rightarrow> Inr m')"

section \<open>The random-access buffer \<^verbatim>\<open>BufferT\<close>\<close>

text \<open>
  A \<^verbatim>\<open>BufferT\<close> holds one container, \<^verbatim>\<open>continer_\<close>, and nothing else, and forwards
  \<^verbatim>\<open>begin\<close>, \<^verbatim>\<open>size\<close>, \<^verbatim>\<open>empty\<close>, \<^verbatim>\<open>resize\<close>, \<^verbatim>\<open>clear\<close> and \<^verbatim>\<open>shrink\<close> to it.
\<close>

type_synonym BufferT = SimpleBufferT

definition BufferT_ref :: "pointer \<Rightarrow> size_t \<Rightarrow> memory \<Rightarrow> cstate" where
  "BufferT_ref buf n m =
     (let tmp = SimpleBufferT_ref buf n;
          rv = SimpleBufferT_new
      in fst (move_assign (m, rv) tmp))"

text \<open>The bytes of the buffer, \<open>None\<close> when they do not lie in live memory.\<close>

definition contents :: "memory \<Rightarrow> BufferT \<Rightarrow> byte list option" where
  "contents m b = load m (begin_of b) (unat (size_of b))"

text \<open>\<^verbatim>\<open>std::fill(first, last, value)\<close> writes every byte from \<^verbatim>\<open>first\<close> up to \<^verbatim>\<open>last\<close>.\<close>

definition std_fill :: "memory \<Rightarrow> pointer \<Rightarrow> pointer \<Rightarrow> byte \<Rightarrow> memory option" where
  "std_fill m first_p last_p val =
     (case (first_p, last_p) of
        (Ptr a i, Ptr b j) \<Rightarrow>
          if a = b \<and> i \<le> j then store m first_p (replicate (j - i) val) else None
      | (Null, Null) \<Rightarrow> Some m
      | _ \<Rightarrow> None)"

definition fill :: "byte \<Rightarrow> size_t \<Rightarrow> size_t \<Rightarrow> cstate \<Rightarrow> error option \<times> cstate" where
  "fill val offset count s =
     (let (m, b) = s;
          count = (if count = 0 \<or> offset + count > size_of b then size_of b - offset else count)
      in case std_fill m (ptr_add (begin_of b) offset)
                (ptr_add (ptr_add (begin_of b) offset) count) val of
           None \<Rightarrow> (Some MemoryFault, s)
         | Some m' \<Rightarrow> (None, (m', b)))"

text \<open>\<^verbatim>\<open>slice\<close> returns the memory and the new buffer.\<close>

definition slice :: "size_t \<Rightarrow> size_t \<Rightarrow> cstate \<Rightarrow> error option \<times> cstate" where
  "slice offset count s =
     (let (m, b) = s in
      if empty_of b then (None, (m, SimpleBufferT_new))
      else if count + offset \<ge> size_of b
        then SimpleBufferT_from_ptr (ptr_add (begin_of b) offset) (size_of b - offset) m
        else SimpleBufferT_from_ptr (ptr_add (begin_of b) offset) count m)"

text \<open>
  Typed reads. \<open>read\<close> is \<^verbatim>\<open>read<_RetTy, endianness>(offset)\<close>, \<open>read_native\<close> the
  overload that takes the order of the host, \<open>read_8bit\<close> the overload for \<^verbatim>\<open>char\<close>,
  \<^verbatim>\<open>int8_t\<close> and \<^verbatim>\<open>uint8_t\<close>. A read is \<^verbatim>\<open>const\<close>: it returns a value or an exception.
\<close>

definition read ::
  "Endianness \<Rightarrow> basictype \<Rightarrow> Endianness \<Rightarrow> cstate \<Rightarrow> size_t \<Rightarrow> error + scalar" where
  "read host ty endianness s offset =
     (let (m, b) = s in
      if offset + of_nat (sizeof ty) > size_of b then Inl OutOfRange
      else Endian_read host ty endianness m (ptr_add (begin_of b) offset))"

definition read_le :: "Endianness \<Rightarrow> basictype \<Rightarrow> cstate \<Rightarrow> size_t \<Rightarrow> error + scalar" where
  "read_le host ty s offset = read host ty kLittleEndian s offset"

definition read_be :: "Endianness \<Rightarrow> basictype \<Rightarrow> cstate \<Rightarrow> size_t \<Rightarrow> error + scalar" where
  "read_be host ty s offset = read host ty kBigEndian s offset"

definition read_native :: "Endianness \<Rightarrow> basictype \<Rightarrow> cstate \<Rightarrow> size_t \<Rightarrow> error + scalar" where
  "read_native host ty s offset =
     (if CurrentEndian host = kBigEndian then read host ty kBigEndian s offset
      else read host ty kLittleEndian s offset)"

definition read_8bit :: "cstate \<Rightarrow> size_t \<Rightarrow> error + byte" where
  "read_8bit s offset =
     (let (m, b) = s in
      if offset \<ge> size_of b then Inl OutOfRange
      else case load m (ptr_add (begin_of b) offset) 1 of
             Some [x] \<Rightarrow> Inr x
           | _ \<Rightarrow> Inl MemoryFault)"

text \<open>
  Typed writes, named as the reads are; \<open>write_val\<close> is
  \<^verbatim>\<open>write<_SrcTy, endianness>(value, offset)\<close>. Then \<^verbatim>\<open>write_bytes(buf, buf_size, offset)\<close>.
\<close>

definition write_val ::
  "Endianness \<Rightarrow> Endianness \<Rightarrow> scalar \<Rightarrow> size_t \<Rightarrow> cstate \<Rightarrow> error option \<times> cstate" where
  "write_val host endianness v offset s =
     (let (m, b) = s in
      if offset + of_nat (sizeof (type_of v)) > size_of b then (Some OutOfRange, s)
      else case Endian_write host endianness m (ptr_add (begin_of b) offset) v of
             Inl e \<Rightarrow> (Some e, s)
           | Inr m' \<Rightarrow> (None, (m', b)))"

definition write_le :: "Endianness \<Rightarrow> scalar \<Rightarrow> size_t \<Rightarrow> cstate \<Rightarrow> error option \<times> cstate" where
  "write_le host v offset s = write_val host kLittleEndian v offset s"

definition write_be :: "Endianness \<Rightarrow> scalar \<Rightarrow> size_t \<Rightarrow> cstate \<Rightarrow> error option \<times> cstate" where
  "write_be host v offset s = write_val host kBigEndian v offset s"

definition write_native ::
  "Endianness \<Rightarrow> scalar \<Rightarrow> size_t \<Rightarrow> cstate \<Rightarrow> error option \<times> cstate" where
  "write_native host v offset s =
     (if CurrentEndian host = kBigEndian then write_val host kBigEndian v offset s
      else write_val host kLittleEndian v offset s)"

definition write_8bit :: "byte \<Rightarrow> size_t \<Rightarrow> cstate \<Rightarrow> error option \<times> cstate" where
  "write_8bit v offset s =
     (let (m, b) = s in
      if offset \<ge> size_of b then (Some OutOfRange, s)
      else case store m (ptr_add (begin_of b) offset) [v] of
             None \<Rightarrow> (Some MemoryFault, s)
           | Some m' \<Rightarrow> (None, (m', b)))"

definition write_bytes :: "pointer \<Rightarrow> size_t \<Rightarrow> size_t \<Rightarrow> cstate \<Rightarrow> error option \<times> cstate" where
  "write_bytes buf buf_size offset s =
     (let (m, b) = s in
      if offset + buf_size > size_of b then (Some OutOfRange, s)
      else case memcpy m (ptr_add (begin_of b) offset) buf (unat buf_size) of
             None \<Rightarrow> (Some MemoryFault, s)
           | Some m' \<Rightarrow> (None, (m', b)))"

text \<open>\<^verbatim>\<open>append\<close> grows the container through \<^verbatim>\<open>EnsureWritableBytes\<close> and writes at the old end.\<close>

definition EnsureWritableBytes :: "size_t \<Rightarrow> size_t \<Rightarrow> cstate \<Rightarrow> error option \<times> cstate" where
  "EnsureWritableBytes offset n s =
     (if offset + n > size_of (snd s)
      then resize (size_of (snd s) + (offset + n - size_of (snd s))) s
      else (None, s))"

definition append ::
  "Endianness \<Rightarrow> Endianness \<Rightarrow> scalar \<Rightarrow> cstate \<Rightarrow> error option \<times> cstate" where
  "append host endianness v s =
     (let offset = size_of (snd s)
      in case EnsureWritableBytes (size_of (snd s)) (of_nat (sizeof (type_of v))) s of
           (Some e, s') \<Rightarrow> (Some e, s')
         | (None, s') \<Rightarrow> write_val host endianness v offset s')"

definition append_8bit :: "byte \<Rightarrow> cstate \<Rightarrow> error option \<times> cstate" where
  "append_8bit v s =
     (let offset = size_of (snd s)
      in case EnsureWritableBytes (size_of (snd s)) 1 s of
           (Some e, s') \<Rightarrow> (Some e, s')
         | (None, (m, b)) \<Rightarrow>
             (case store m (ptr_add (begin_of b) offset) [v] of
                None \<Rightarrow> (Some MemoryFault, (m, b))
              | Some m' \<Rightarrow> (None, (m', b))))"

definition append_bytes :: "pointer \<Rightarrow> size_t \<Rightarrow> cstate \<Rightarrow> error option \<times> cstate" where
  "append_bytes buf buf_size s =
     (let offset = size_of (snd s)
      in case EnsureWritableBytes offset buf_size s of
           (Some e, s') \<Rightarrow> (Some e, s')
         | (None, (m, b)) \<Rightarrow>
             (case memcpy m (ptr_add (begin_of b) offset) buf (unat buf_size) of
                None \<Rightarrow> (Some MemoryFault, (m, b))
              | Some m' \<Rightarrow> (None, (m', b))))"

section \<open>The sequential cursor \<^verbatim>\<open>StreamBufferT\<close>\<close>

record StreamBufferT =
  read_index_m :: size_t
  write_index_m :: size_t
  buffer_m :: BufferT

type_synonym sstate = "memory \<times> StreamBufferT"

definition read_eof :: "StreamBufferT \<Rightarrow> bool" where
  "read_eof st = (read_index_m st \<ge> size_of (buffer_m st))"

definition write_eof :: "StreamBufferT \<Rightarrow> bool" where
  "write_eof st = (write_index_m st \<ge> size_of (buffer_m st))"

text \<open>
  \<^verbatim>\<open>xran\<close> formats a message with \<^verbatim>\<open>sprintf\<close> into \<^verbatim>\<open>char buf[80]\<close> and then throws
  \<^verbatim>\<open>std::out_of_range\<close>. A format is given by its literal pieces, each followed by one
  \<^verbatim>\<open>%08x\<close> field, and a field prints at least eight characters. When the message and its
  terminating zero do not fit the 80 bytes, \<^verbatim>\<open>sprintf\<close> writes past the array: undefined
  behaviour, before anything is thrown.
\<close>

definition sprintf_length :: "string list \<Rightarrow> nat" where
  "sprintf_length pieces = sum_list (map length pieces) + 8 * length pieces"

definition xran_outcome :: "string list \<Rightarrow> error" where
  "xran_outcome pieces = (if sprintf_length pieces + 1 \<le> 80 then OutOfRange else MemoryFault)"

definition BufferT_xran_format :: "string list" where
  "BufferT_xran_format = [''BufferT('', ''), size='', '', pos='', '', need_size='']"

definition StreamBufferT_xran_format :: "bool \<Rightarrow> string list" where
  "StreamBufferT_xran_format read_action =
     (if read_action
      then [''StreamBufferT('', '') read, size='', '', read_index='', '', need_size='']
      else [''StreamBufferT('', '') write, size='', '', write_index='', '', need_size=''])"

definition StreamBufferT_xran :: "bool \<Rightarrow> error" where
  "StreamBufferT_xran read_action = xran_outcome (StreamBufferT_xran_format read_action)"

text \<open>
  A cursor read returns the value or the exception, and the cursor; it leaves the memory
  alone. The index moves before the bytes are decoded.
\<close>

definition stream_read ::
  "Endianness \<Rightarrow> basictype \<Rightarrow> Endianness \<Rightarrow> sstate \<Rightarrow> (error + scalar) \<times> StreamBufferT" where
  "stream_read host ty endianness s =
     (let (m, st) = s in
      if read_index_m st + of_nat (sizeof ty) > size_of (buffer_m st) then (Inl (StreamBufferT_xran True), st)
      else let offset = read_index_m st;
               st' = st\<lparr>read_index_m := read_index_m st + of_nat (sizeof ty)\<rparr>
           in (Endian_read host ty endianness m (ptr_add (begin_of (buffer_m st')) offset), st'))"

definition stream_read_8bit :: "sstate \<Rightarrow> (error + byte) \<times> StreamBufferT" where
  "stream_read_8bit s =
     (let (m, st) = s in
      if read_index_m st + 1 > size_of (buffer_m st) then (Inl (StreamBufferT_xran True), st)
      else let offset = read_index_m st;
               st' = st\<lparr>read_index_m := read_index_m st + 1\<rparr>
           in (case load m (ptr_add (begin_of (buffer_m st')) offset) 1 of
                 Some [x] \<Rightarrow> (Inr x, st')
               | _ \<Rightarrow> (Inl MemoryFault, st')))"

definition stream_write ::
  "Endianness \<Rightarrow> Endianness \<Rightarrow> scalar \<Rightarrow> sstate \<Rightarrow> error option \<times> sstate" where
  "stream_write host endianness v s =
     (let (m, st) = s in
      if write_index_m st + of_nat (sizeof (type_of v)) > size_of (buffer_m st)
      then (Some (StreamBufferT_xran False), s)
      else let offset = write_index_m st;
               st' = st\<lparr>write_index_m := write_index_m st + of_nat (sizeof (type_of v))\<rparr>
           in (case Endian_write host endianness m (ptr_add (begin_of (buffer_m st')) offset) v of
                 Inl e \<Rightarrow> (Some e, (m, st'))
               | Inr m' \<Rightarrow> (None, (m', st'))))"

definition stream_write_8bit :: "byte \<Rightarrow> sstate \<Rightarrow> error option \<times> sstate" where
  "stream_write_8bit v s =
     (let (m, st) = s in
      if write_index_m st + 1 > size_of (buffer_m st) then (Some (StreamBufferT_xran False), s)
      else let offset = write_index_m st;
               st' = st\<lparr>write_index_m := write_index_m st + 1\<rparr>
           in (case store m (ptr_add (begin_of (buffer_m st')) offset) [v] of
                 None \<Rightarrow> (Some MemoryFault, (m, st'))
               | Some m' \<Rightarrow> (None, (m', st'))))"

section \<open>Well-formed states\<close>

text \<open>
  \<open>storage_ok\<close> is what \<^verbatim>\<open>reserve\<close> relies on: an empty container holds no memory; any
  other one points into a live object that covers its capacity, and an owned one sits
  at the start of a block of exactly its capacity. No object is larger than
  \<open>PTRDIFF_MAX\<close>.
\<close>

definition storage_ok :: "memory \<Rightarrow> SimpleBufferT \<Rightarrow> bool" where
  "storage_ok m c =
     (case buf_m c of
        Null \<Rightarrow> capacity_m c = 0 \<and> \<not> ref_m c
      | Ptr a off \<Rightarrow>
          (case block_at m a of
             None \<Rightarrow> False
           | Some blk \<Rightarrow>
               length blk \<le> PTRDIFF_MAX \<and> off + unat (capacity_m c) \<le> length blk \<and>
               (ref_m c \<or> (off = 0 \<and> length blk = unat (capacity_m c))))
      | Wild \<Rightarrow> False)"

text \<open>
  \<open>valid\<close> is the invariant of the data model: the storage is in order, the size is
  within the capacity, the trigger counter within its threshold, and a container of size
  0 holds no memory. The default constructor, \<^verbatim>\<open>ref\<close> over a readable array and the
  copying constructors over a readable source establish it, and the member functions
  proved below keep it when they return normally. The constructor from a pointer and a
  size is the exception when it is handed a null pointer with a size above 0: it assigns
  \<^verbatim>\<open>size_\<close> and takes no memory.
\<close>

definition valid :: "memory \<Rightarrow> SimpleBufferT \<Rightarrow> bool" where
  "valid m c =
     (storage_ok m c \<and> size_m c \<le> capacity_m c \<and>
      0 \<le> shrink_counter_m c \<and> shrink_counter_m c \<le> DEFAULT_SHRINK_TRIGGER_COUNT \<and>
      (size_m c = 0 \<longrightarrow> buf_m c = Null))"

text \<open>
  A cursor starts with both indices at 0 and moves one only after the bounds check, so
  neither ever passes the largest size its buffer has had.
\<close>

definition valid_stream :: "memory \<Rightarrow> StreamBufferT \<Rightarrow> bool" where
  "valid_stream m st =
     (valid m (buffer_m st) \<and>
      unat (read_index_m st) \<le> PTRDIFF_MAX \<and> unat (write_index_m st) \<le> PTRDIFF_MAX)"

section \<open>Mutations of a buffer\<close>

text \<open>
  The member functions of \<^verbatim>\<open>BufferT\<close> that change the buffer or its bytes, as data, and
  what a program does after the buffer exists: it calls one of them, or it writes into
  an array of its own.
\<close>

datatype bufop =
    Write Endianness scalar size_t
  | Write8 byte size_t
  | WriteBytes pointer size_t size_t
  | Fill byte size_t size_t
  | Resize size_t
  | Clear
  | Shrink
  | Append Endianness scalar
  | Append8 byte
  | AppendBytes pointer size_t

fun apply_op :: "Endianness \<Rightarrow> bufop \<Rightarrow> cstate \<Rightarrow> error option \<times> cstate" where
  "apply_op host (Write e v offset) s = write_val host e v offset s"
| "apply_op host (Write8 v offset) s = write_8bit v offset s"
| "apply_op host (WriteBytes buf n offset) s = write_bytes buf n offset s"
| "apply_op host (Fill v offset count) s = fill v offset count s"
| "apply_op host (Resize n) s = resize n s"
| "apply_op host Clear s = (None, clear s)"
| "apply_op host Shrink s = shrink s"
| "apply_op host (Append e v) s = append host e v s"
| "apply_op host (Append8 v) s = append_8bit v s"
| "apply_op host (AppendBytes buf n) s = append_bytes buf n s"

datatype event = BufferOp bufop | CallerStore nat "byte list"

text \<open>
  \<open>step host r ev\<close>: the caller's array is the object at address \<open>r\<close>. An exception
  leaves the state as the member function left it.
\<close>

fun step :: "Endianness \<Rightarrow> nat \<Rightarrow> event \<Rightarrow> cstate \<Rightarrow> cstate" where
  "step host r (BufferOp op) s = snd (apply_op host op s)"
| "step host r (CallerStore k bs) s =
     (case store (fst s) (Ptr r k) bs of None \<Rightarrow> s | Some m' \<Rightarrow> (m', snd s))"

definition run :: "Endianness \<Rightarrow> nat \<Rightarrow> event list \<Rightarrow> cstate \<Rightarrow> cstate" where
  "run host r evs s = foldl (\<lambda>s ev. step host r ev s) s evs"

text \<open>The buffer does not point into the object at \<open>r\<close>, and owns what it points to.\<close>

definition apart :: "nat \<Rightarrow> cstate \<Rightarrow> bool" where
  "apart r s =
     (r < length (blocks (fst s)) \<and> \<not> ref_m (snd s) \<and>
      (case buf_m (snd s) of Ptr a off \<Rightarrow> a \<noteq> r | _ \<Rightarrow> True))"

section \<open>A small buffer to run the functions on\<close>

definition demo_memory :: memory where
  "demo_memory = \<lparr>blocks = [Some [0xff, 0xee, 0xdd, 0xcc]], max_alloc = 4096\<rparr>"

definition demo_buffer :: BufferT where
  "demo_buffer = \<lparr>buf_m = Ptr 0 0, size_m = 4, capacity_m = 4, shrink_counter_m = 0, ref_m = False\<rparr>"

definition same_shape :: "memory \<Rightarrow> memory \<Rightarrow> bool" where
  "same_shape m m' = (\<forall>a. map_option length (block_at m' a) = map_option length (block_at m a))"

definition demo_stream :: StreamBufferT where
  "demo_stream = \<lparr>read_index_m = 0, write_index_m = 0, buffer_m = demo_buffer\<rparr>"

definition next_capacity :: "size_t \<Rightarrow> size_t \<Rightarrow> size_t" where
  "next_capacity cap n =
     (if n > cap then max DEFAULT_MINI_SIZE (max n (2 * cap)) else n)"

definition can_alloc :: "memory \<Rightarrow> nat \<Rightarrow> bool" where
  "can_alloc m n = (n \<le> max_alloc m \<and> n \<le> PTRDIFF_MAX)"

definition roomy_memory :: memory where
  "roomy_memory = \<lparr>blocks = [Some [1, 2, 3, 4, 0, 0, 0, 0]], max_alloc = 4096\<rparr>"

definition roomy_buffer :: BufferT where
  "roomy_buffer = \<lparr>buf_m = Ptr 0 0, size_m = 4, capacity_m = 8, shrink_counter_m = 0, ref_m = False\<rparr>"

definition caller_memory :: memory where
  "caller_memory = \<lparr>blocks = [Some [1, 2, 3]], max_alloc = 4096\<rparr>"

definition borrowed_buffer :: BufferT where
  "borrowed_buffer = snd (BufferT_ref (Ptr 0 0) 3 caller_memory)"

section \<open>The codec moves bytes faithfully\<close>

lemma length_swizzle_loop: "length (swizzle_loop bs s e) = length bs"
proof (induction bs s e rule: swizzle_loop.induct)
  case (1 bs s e)
  show ?case
  proof (cases "s < e")
    case True
    with 1 show ?thesis by (subst swizzle_loop.simps) simp
  next
    case False
    then show ?thesis by (subst swizzle_loop.simps) simp
  qed
qed

lemma swizzle_loop_nth:
  "e < length bs \<Longrightarrow> k < length bs \<Longrightarrow>
   swizzle_loop bs s e ! k = (if s \<le> k \<and> k \<le> e then bs ! (s + e - k) else bs ! k)"
proof (induction bs s e arbitrary: k rule: swizzle_loop.induct)
  case (1 bs s e)
  show ?case
  proof (cases "s < e")
    case True
    let ?bs = "bs[s := bs ! e, e := bs ! s]"
    have step: "swizzle_loop bs s e = swizzle_loop ?bs (Suc s) (e - 1)"
      using True by (subst swizzle_loop.simps) simp
    have ih: "swizzle_loop ?bs (Suc s) (e - 1) ! k =
        (if Suc s \<le> k \<and> k \<le> e - 1 then ?bs ! (Suc s + (e - 1) - k) else ?bs ! k)"
      using "1.IH"[OF True, of k] "1.prems" True by simp
    show ?thesis
      using True "1.prems" unfolding step ih
      by (auto simp: nth_list_update)
  next
    case False
    have "swizzle_loop bs s e = bs"
      using False by (subst swizzle_loop.simps) simp
    moreover have "s + e - k = k" if "s \<le> k" "k \<le> e"
      using that False by arith
    ultimately show ?thesis by simp
  qed
qed

lemma Swizzle_rev: "Swizzle bs = rev bs"
proof (cases "bs = []")
  case True
  then show ?thesis by (simp add: Swizzle_def swizzle_loop.simps)
next
  case False
  show ?thesis
  proof (rule nth_equalityI)
    show "length (Swizzle bs) = length (rev bs)"
      by (simp add: Swizzle_def length_swizzle_loop)
  next
    fix i assume "i < length (Swizzle bs)"
    then have i: "i < length bs" by (simp add: Swizzle_def length_swizzle_loop)
    have e: "length bs - 1 < length bs" using i by arith
    have "Swizzle bs ! i = bs ! (0 + (length bs - 1) - i)"
      unfolding Swizzle_def using swizzle_loop_nth[OF e i, of 0] i by auto
    also have "0 + (length bs - 1) - i = length bs - Suc i" by arith
    finally show "Swizzle bs ! i = rev bs ! i"
      using i by (simp only: rev_nth)
  qed
qed

lemma probe_bytes: "le_bytes 4 (0x01020304 :: 32 word) = [4, 3, 2, 1]"
  by code_simp

lemma CurrentEndian_host: "CurrentEndian host = host"
  by (cases host) (simp_all add: CurrentEndian_def detect_big_endian_def union_bytes_def probe_bytes)

lemma length_le_bytes: "length (le_bytes n w) = n"
  by (induction n arbitrary: w) simp_all

lemma length_scalar_le_bytes: "length (scalar_le_bytes v) = sizeof (type_of v)"
  by (cases v) (simp_all add: length_le_bytes)

lemma le_value_le_bytes: "le_value (le_bytes n w) = take_bit (8 * n) (w :: 'a::len word)"
proof (induction n arbitrary: w)
  case 0 show ?case by simp
next
  case (Suc n)
  have "or (ucast (ucast w :: byte)) (push_bit 8 (take_bit (8 * n) (drop_bit 8 w))) = take_bit (8 + 8 * n) w"
    by (rule bit_eqI) (auto simp add: bit_simps)
  then show ?case
    by (simp add: Suc)
qed

lemma scalar_le_roundtrip: "scalar_le_value (type_of v) (scalar_le_bytes v) = v"
  by (cases v) (simp_all add: le_value_le_bytes take_bit_word_eq_self)

lemma union_roundtrip: "union_val host (type_of v) (union_bytes host v) = v"
  by (cases host) (simp_all add: union_val_def union_bytes_def scalar_le_roundtrip)

lemma union_swizzle_roundtrip:
  "union_val host (type_of v) (Swizzle (Swizzle (union_bytes host v))) = v"
  by (simp add: Swizzle_rev union_roundtrip)


lemma length_union_bytes: "length (union_bytes host v) = sizeof (type_of v)"
  by (cases host) (simp_all add: union_bytes_def length_scalar_le_bytes)

lemma block_at_SomeD: "block_at m a = Some blk \<Longrightarrow> a < length (blocks m) \<and> blocks m ! a = Some blk"
  by (simp add: block_at_def split: if_splits)

lemma store_Ptr:
  "block_at m a = Some blk \<Longrightarrow> off + length bs \<le> length blk \<Longrightarrow> bs \<noteq> [] \<Longrightarrow>
   store m (Ptr a off) bs =
     Some (m\<lparr>blocks := (blocks m)[a := Some (take off blk @ bs @ drop (off + length bs) blk)]\<rparr>)"
  by (simp add: store_def)

lemma store_SomeE:
  assumes "store m p bs = Some m'" "bs \<noteq> []"
  obtains a off blk where "p = Ptr a off" "block_at m a = Some blk" "off + length bs \<le> length blk"
    "m' = m\<lparr>blocks := (blocks m)[a := Some (take off blk @ bs @ drop (off + length bs) blk)]\<rparr>"
  using assms by (auto simp: store_def split: pointer.splits option.splits if_splits)

lemma block_at_update:
  "a < length (blocks m) \<Longrightarrow>
   block_at (m\<lparr>blocks := (blocks m)[a := x]\<rparr>) b = (if b = a then x else block_at m b)"
  by (simp add: block_at_def)

lemma load_store_same:
  assumes "store m p bs = Some m'"
  shows "load m' p (length bs) = Some bs"
proof (cases "bs = []")
  case True
  then show ?thesis by (simp add: load_def)
next
  case False
  from assms False obtain a off blk where p: "p = Ptr a off" and blk: "block_at m a = Some blk"
    and le: "off + length bs \<le> length blk"
    and m': "m' = m\<lparr>blocks := (blocks m)[a := Some (take off blk @ bs @ drop (off + length bs) blk)]\<rparr>"
    by (rule store_SomeE)
  from blk have a: "a < length (blocks m)" by (simp add: block_at_SomeD)
  show ?thesis
    using False le by (simp add: load_def p m' block_at_update[OF a])
qed

lemma store_ok:
  "block_at m a = Some blk \<Longrightarrow> off + length bs \<le> length blk \<Longrightarrow> \<exists>m'. store m (Ptr a off) bs = Some m'"
  by (simp add: store_def)

lemma unat_plus_small:
  "unat (x :: size_t) + n < 2 ^ 64 \<Longrightarrow> unat (x + of_nat n) = unat x + n"
  by (simp add: unat_word_ariths unat_of_nat take_bit_nat_eq_self_iff)

section \<open>Typed access\<close>

lemma storage_ok_PtrE:
  assumes "storage_ok m c" "buf_m c \<noteq> Null"
  obtains a off blk where "buf_m c = Ptr a off" "block_at m a = Some blk"
    "length blk \<le> PTRDIFF_MAX" "off + unat (capacity_m c) \<le> length blk"
    "ref_m c \<or> (off = 0 \<and> length blk = unat (capacity_m c))"
  using assms by (cases "buf_m c") (auto simp: storage_ok_def split: option.splits)

lemma valid_PtrE:
  assumes "valid m c" "size_m c \<noteq> 0"
  obtains a off blk where "buf_m c = Ptr a off" "block_at m a = Some blk"
    "length blk \<le> PTRDIFF_MAX" "off + unat (capacity_m c) \<le> length blk"
    "unat (size_m c) \<le> unat (capacity_m c)"
    "ref_m c \<or> (off = 0 \<and> length blk = unat (capacity_m c))"
proof -
  from assms have ok: "storage_ok m c" and nn: "buf_m c \<noteq> Null"
    by (auto simp: valid_def storage_ok_def)
  from assms(1) have "unat (size_m c) \<le> unat (capacity_m c)"
    by (simp add: valid_def word_le_nat_alt)
  with storage_ok_PtrE[OF ok nn] that show ?thesis by blast
qed

lemma sizeof_pos: "0 < sizeof ty" "sizeof ty \<le> 8"
  by (cases ty; simp)+

lemma in_bounds_check:
  assumes "unat offset + n \<le> unat (sz :: size_t)"
  shows "\<not> offset + of_nat n > sz"
proof -
  have "unat sz < 2 ^ 64" using unsigned_less[of sz, where 'a=nat] by simp
  with assms have "unat (offset + of_nat n) = unat offset + n"
    by (intro unat_plus_small) simp
  with assms show ?thesis by (simp add: word_less_nat_alt)
qed

lemma Endian_write_read:
  assumes "Endian_write host e m p v = Inr m'"
  shows "Endian_read host (type_of v) e m' p = Inr v"
proof -
  define bytes where "bytes = (if CurrentEndian host \<noteq> e then Swizzle (union_bytes host v) else union_bytes host v)"
  have len: "length bytes = sizeof (type_of v)"
    by (simp add: bytes_def Swizzle_rev length_union_bytes)
  from assms have "store m p bytes = Some m'"
    by (auto simp: Endian_write_def bytes_def Let_def split: option.splits if_splits)
  then have "load m' p (sizeof (type_of v)) = Some bytes"
    using load_store_same len by metis
  moreover have "union_val host (type_of v) (if CurrentEndian host \<noteq> e then Swizzle bytes else bytes) = v"
    by (simp add: bytes_def Swizzle_rev union_roundtrip)
  ultimately show ?thesis by (simp add: Endian_read_def)
qed

text \<open>
  Claim C1. For every supported multi-byte type, every value \<open>v\<close> of it, every requested
  order \<open>e\<close> and every host order: writing \<open>v\<close> at an offset with
  \<open>offset + sizeof(T) \<le> size()\<close> returns normally, and reading the same type at the same
  offset with the same order then returns \<open>v\<close>, bit for bit.
\<close>

theorem write_read_roundtrip:
  assumes "valid m b" and "unat offset + sizeof (type_of v) \<le> unat (size_of b)"
  shows "\<exists>m'. write_val host e v offset (m, b) = (None, (m', b)) \<and>
               read host (type_of v) e (m', b) offset = Inr v"
proof -
  have nz: "size_m b \<noteq> 0"
    using assms(2) sizeof_pos(1)[of "type_of v"] by (auto simp: size_of_def)
  from assms(1) nz obtain a off blk where buf: "buf_m b = Ptr a off"
    and blk: "block_at m a = Some blk" and cap: "off + unat (capacity_m b) \<le> length blk"
    and sc: "unat (size_m b) \<le> unat (capacity_m b)"
    by (rule valid_PtrE)
  have chk: "\<not> offset + of_nat (sizeof (type_of v)) > size_of b"
    using assms(2) by (rule in_bounds_check)
  define bytes where "bytes = (if CurrentEndian host \<noteq> e then Swizzle (union_bytes host v) else union_bytes host v)"
  have len: "length bytes = sizeof (type_of v)"
    by (simp add: bytes_def Swizzle_rev length_union_bytes)
  have "off + unat offset + length bytes \<le> length blk"
    using assms(2) cap sc len by (simp add: size_of_def)
  with blk obtain m' where st: "store m (Ptr a (off + unat offset)) bytes = Some m'"
    using store_ok by blast
  then have w: "Endian_write host e m (ptr_add (begin_of b) offset) v = Inr m'"
    by (simp add: Endian_write_def bytes_def begin_of_def buf Let_def)
  then have "Endian_read host (type_of v) e m' (ptr_add (begin_of b) offset) = Inr v"
    by (rule Endian_write_read)
  with w chk have "write_val host e v offset (m, b) = (None, (m', b)) \<and>
               read host (type_of v) e (m', b) offset = Inr v"
    by (simp add: write_val_def read_def)
  then show ?thesis ..
qed


lemma valid_demo: "valid demo_memory demo_buffer"
  by (simp add: valid_def storage_ok_def demo_memory_def demo_buffer_def block_at_def
      PTRDIFF_MAX_def DEFAULT_SHRINK_TRIGGER_COUNT_def)

theorem write_read_roundtrip_witness:
  "valid demo_memory demo_buffer \<and>
   unat (1 :: size_t) + sizeof (type_of (UInt16 0xffee)) \<le> unat (size_of demo_buffer) \<and>
   (\<exists>m'. write_val kLittleEndian kBigEndian (UInt16 0xffee) 1 (demo_memory, demo_buffer)
            = (None, (m', demo_buffer)) \<and>
         read kLittleEndian (type_of (UInt16 0xffee)) kBigEndian (m', demo_buffer) 1
            = Inr (UInt16 0xffee))"
proof -
  have b: "unat (1 :: size_t) + sizeof (type_of (UInt16 0xffee)) \<le> unat (size_of demo_buffer)"
    by (simp add: size_of_def demo_buffer_def)
  show ?thesis
    using valid_demo b write_read_roundtrip[OF valid_demo b] by blast
qed

lemma ptr_add_0: "ptr_add p 0 = p"
  by (cases p) simp_all

lemma load_take:
  "load m p n = Some bs \<Longrightarrow> k \<le> n \<Longrightarrow> load m p k = Some (take k bs)"
  by (auto simp: load_def min_def split: if_splits pointer.splits option.splits)

lemma load_length: "load m p n = Some bs \<Longrightarrow> length bs = n"
  by (auto simp: load_def split: if_splits pointer.splits option.splits)

lemma le_value_ffee: "le_value [0xee, 0xff] = (0xffee :: 16 word)" "le_value [0xff, 0xee] = (0xeeff :: 16 word)"
  by code_simp+

text \<open>
  Claim C9. In a buffer whose bytes at offsets 0 and 1 are \<open>0xff\<close> and \<open>0xee\<close>,
  \<^verbatim>\<open>read_be<uint16_t>(0)\<close> is \<open>0xffee\<close> and \<^verbatim>\<open>read_le<uint16_t>(0)\<close> is \<open>0xeeff\<close>, whatever
  the byte order of the host.
\<close>

theorem read_be_le_example:
  assumes "contents m b = Some bs" and "2 \<le> length bs" and "bs ! 0 = 0xff" and "bs ! 1 = 0xee"
  shows "read_be host T_uint16 (m, b) 0 = Inr (UInt16 0xffee) \<and>
         read_le host T_uint16 (m, b) 0 = Inr (UInt16 0xeeff)"
proof -
  have len: "length bs = unat (size_of b)"
    using assms(1) by (simp add: contents_def load_length)
  have "take 2 bs = [bs ! 0, bs ! 1]"
    using assms(2) by (cases bs; cases "tl bs") auto
  then have tk: "take 2 bs = [0xff, 0xee]" using assms by simp
  have ld: "load m (begin_of b) 2 = Some [0xff, 0xee]"
    using load_take[OF assms(1)[unfolded contents_def], of 2] assms(2) len tk by simp
  have chk: "\<not> 0 + of_nat (sizeof T_uint16) > size_of b"
    by (rule in_bounds_check) (use assms(2) len in simp)
  show ?thesis
    using chk ld
    by (cases host)
      (simp_all add: read_be_def read_le_def read_def ptr_add_0 Endian_read_def
        CurrentEndian_host Swizzle_rev union_val_def le_value_ffee)
qed

theorem read_be_le_example_witness:
  "contents demo_memory demo_buffer = Some [0xff, 0xee, 0xdd, 0xcc] \<and>
   2 \<le> length [0xff, 0xee, 0xdd, 0xcc :: byte] \<and>
   [0xff, 0xee, 0xdd, 0xcc :: byte] ! 0 = 0xff \<and> [0xff, 0xee, 0xdd, 0xcc :: byte] ! 1 = 0xee \<and>
   read_be kLittleEndian T_uint16 (demo_memory, demo_buffer) 0 = Inr (UInt16 0xffee) \<and>
   read_le kLittleEndian T_uint16 (demo_memory, demo_buffer) 0 = Inr (UInt16 0xeeff)"
proof -
  have c: "contents demo_memory demo_buffer = Some [0xff, 0xee, 0xdd, 0xcc]"
    by (simp add: contents_def load_def begin_of_def size_of_def demo_memory_def demo_buffer_def
        block_at_def)
  show ?thesis
    using c read_be_le_example[OF c, of kLittleEndian] by simp
qed

section \<open>Bytes of a well-formed buffer\<close>

lemma splice_window:
  assumes "off + sz \<le> length blk" "k + length bs \<le> sz"
  shows "take sz (drop off (take (off + k) blk @ bs @ drop (off + k + length bs) blk)) =
         take k (take sz (drop off blk)) @ bs @ drop (k + length bs) (take sz (drop off blk))"
proof -
  define pre where "pre = take off blk"
  define w where "w = take sz (drop off blk)"
  define post where "post = drop (off + sz) blk"
  have blk: "blk = pre @ w @ post"
    unfolding pre_def w_def post_def
    by (metis add.commute append_take_drop_id drop_drop)
  have lp: "length pre = off" and lw: "length w = sz"
    using assms by (simp_all add: pre_def w_def)
  have t: "take (off + k) blk = pre @ take k w"
    using assms lp lw by (simp add: blk)
  have d: "drop (off + k + length bs) blk = drop (k + length bs) w @ post"
    using assms lp lw by (simp add: blk)
  have "take sz (drop off (take (off + k) blk @ bs @ drop (off + k + length bs) blk)) =
        take k w @ bs @ drop (k + length bs) w"
  proof -
    have e: "bs = []" if "sz \<le> k"
      using that assms(2) by (cases bs) auto
    show ?thesis
      unfolding t d using assms lp lw e by (auto simp: min_def)
  qed
  then show ?thesis by (simp add: w_def)
qed

lemma storage_ok_same_shape:
  assumes "same_shape m m'" "storage_ok m c"
  shows "storage_ok m' c"
proof (cases "buf_m c")
  case (Ptr a off)
  from assms(1) have "map_option length (block_at m' a) = map_option length (block_at m a)"
    by (simp add: same_shape_def)
  with assms(2) Ptr show ?thesis
    by (auto simp: storage_ok_def split: option.splits)
qed (use assms(2) in \<open>auto simp: storage_ok_def\<close>)

lemma valid_same_shape:
  assumes "same_shape m m'" "valid m c"
  shows "valid m' c"
  using assms storage_ok_same_shape by (auto simp: valid_def)

lemma store_same_shape: "store m p bs = Some m' \<Longrightarrow> same_shape m m'"
proof (cases "bs = []")
  case True
  assume "store m p bs = Some m'"
  with True show ?thesis by (simp add: store_def same_shape_def)
next
  case False
  assume "store m p bs = Some m'"
  from this False obtain a off blk where p: "p = Ptr a off" and blk: "block_at m a = Some blk"
    and le: "off + length bs \<le> length blk"
    and m': "m' = m\<lparr>blocks := (blocks m)[a := Some (take off blk @ bs @ drop (off + length bs) blk)]\<rparr>"
    by (rule store_SomeE)
  from blk have a: "a < length (blocks m)" by (simp add: block_at_SomeD)
  show ?thesis
    using le blk by (simp add: same_shape_def m' block_at_update[OF a])
qed

lemma store_other_block:
  "store m (Ptr a off) bs = Some m' \<Longrightarrow> b \<noteq> a \<Longrightarrow> block_at m' b = block_at m b"
  by (auto simp: store_def block_at_def split: if_splits option.splits)

lemma contents_valid:
  assumes "valid m b"
  obtains old where "contents m b = Some old" "length old = unat (size_of b)"
proof (cases "size_m b = 0")
  case True
  then have "contents m b = Some []" by (simp add: contents_def load_def size_of_def)
  with True that show ?thesis by (simp add: size_of_def)
next
  case False
  from assms False obtain a off blk where buf: "buf_m b = Ptr a off"
    and blk: "block_at m a = Some blk" and cap: "off + unat (capacity_m b) \<le> length blk"
    and sc: "unat (size_m b) \<le> unat (capacity_m b)"
    by (rule valid_PtrE)
  have "contents m b = Some (take (unat (size_m b)) (drop off blk))"
    using False cap sc blk by (simp add: contents_def load_def begin_of_def size_of_def buf unat_eq_0)
  moreover have "length (take (unat (size_m b)) (drop off blk)) = unat (size_of b)"
    using cap sc by (simp add: size_of_def)
  ultimately show ?thesis using that by blast
qed

lemma store_in_buffer:
  assumes v: "valid m b" and old: "contents m b = Some old"
    and le: "unat offset + length bs \<le> unat (size_of b)" and ne: "bs \<noteq> []"
  shows "\<exists>m'. store m (ptr_add (begin_of b) offset) bs = Some m' \<and> valid m' b \<and>
           contents m' b = Some (take (unat offset) old @ bs @ drop (unat offset + length bs) old)"
proof -
  have nz: "size_m b \<noteq> 0" using le ne by (auto simp: size_of_def)
  from v nz obtain a off blk where buf: "buf_m b = Ptr a off"
    and blk: "block_at m a = Some blk" and cap: "off + unat (capacity_m b) \<le> length blk"
    and sc: "unat (size_m b) \<le> unat (capacity_m b)"
    by (rule valid_PtrE)
  have nz': "unat (size_m b) \<noteq> 0" using nz by (simp add: unat_eq_0)
  have oldeq: "old = take (unat (size_m b)) (drop off blk)"
    using old nz' cap sc blk by (simp add: contents_def load_def begin_of_def size_of_def buf)
  let ?blk' = "take (off + unat offset) blk @ bs @ drop (off + unat offset + length bs) blk"
  let ?m' = "m\<lparr>blocks := (blocks m)[a := Some ?blk']\<rparr>"
  have fits: "off + unat offset + length bs \<le> length blk"
    using le cap sc by (simp add: size_of_def)
  have st: "store m (ptr_add (begin_of b) offset) bs = Some ?m'"
    using store_Ptr[OF blk fits ne] by (simp add: begin_of_def buf)
  have a: "a < length (blocks m)" using blk by (simp add: block_at_SomeD)
  have len': "length ?blk' = length blk" using fits by simp
  have "contents ?m' b = Some (take (unat (size_m b)) (drop off ?blk'))"
    using nz' cap sc len' by (simp add: contents_def load_def begin_of_def size_of_def buf block_at_update[OF a])
  also have "take (unat (size_m b)) (drop off ?blk') =
      take (unat offset) old @ bs @ drop (unat offset + length bs) old"
    unfolding oldeq
    by (rule splice_window) (use cap sc le in \<open>simp_all add: size_of_def\<close>)
  finally have c: "contents ?m' b = Some (take (unat offset) old @ bs @ drop (unat offset + length bs) old)" .
  have "valid ?m' b" using valid_same_shape[OF store_same_shape[OF st] v] .
  with st c show ?thesis by blast
qed

lemma load_in_buffer:
  assumes v: "valid m b" and old: "contents m b = Some old"
    and le: "unat offset + n \<le> unat (size_of b)"
  shows "load m (ptr_add (begin_of b) offset) n = Some (take n (drop (unat offset) old))"
proof (cases "n = 0")
  case True
  then show ?thesis by (simp add: load_def)
next
  case False
  have nz: "size_m b \<noteq> 0" using le False by (auto simp: size_of_def)
  from v nz obtain a off blk where buf: "buf_m b = Ptr a off"
    and blk: "block_at m a = Some blk" and cap: "off + unat (capacity_m b) \<le> length blk"
    and sc: "unat (size_m b) \<le> unat (capacity_m b)"
    by (rule valid_PtrE)
  have nz': "unat (size_m b) \<noteq> 0" using nz by (simp add: unat_eq_0)
  have oldeq: "old = take (unat (size_m b)) (drop off blk)"
    using old nz' cap sc blk by (simp add: contents_def load_def begin_of_def size_of_def buf)
  have "take n (drop (off + unat offset) blk) = take n (drop (unat offset) old)"
    using le unfolding oldeq by (simp add: size_of_def drop_take add.commute)
  then show ?thesis
    using False blk cap sc le by (simp add: load_def begin_of_def buf size_of_def)
qed

section \<open>Bounds of random access\<close>

lemma bounds_check_iff:
  assumes "unat x + n < 2 ^ 64"
  shows "(x + of_nat n > (sz :: size_t)) = (unat x + n > unat sz)"
  using unat_plus_small[OF assms] by (simp add: word_less_nat_alt)

lemma size_t_bound: "unat (x :: size_t) < 2 ^ 64"
  using unsigned_less[of x, where 'a=nat] by simp

lemma index_no_wrap:
  assumes "unat (i :: size_t) \<le> PTRDIFF_MAX" "n \<le> 8"
  shows "unat i + n < 2 ^ 64"
  using assms by (simp add: PTRDIFF_MAX_def)

lemma read_in_range:
  assumes "valid m b" "contents m b = Some old" "unat offset + sizeof ty \<le> unat (size_of b)"
  shows "read host ty e (m, b) offset =
           Inr (union_val host ty
                  (if CurrentEndian host \<noteq> e then Swizzle (take (sizeof ty) (drop (unat offset) old))
                   else take (sizeof ty) (drop (unat offset) old)))"
  using in_bounds_check[OF assms(3)] load_in_buffer[OF assms]
  by (simp add: read_def Endian_read_def)

lemma read_out_of_range:
  assumes "unat offset + sizeof ty > unat (size_of b)" "unat offset + sizeof ty < 2 ^ 64"
  shows "read host ty e (m, b) offset = Inl OutOfRange"
  using bounds_check_iff[OF assms(2), of "size_of b"] assms(1) by (simp add: read_def)

lemma write_in_range:
  assumes "valid m b" "contents m b = Some old"
    "unat offset + sizeof (type_of v) \<le> unat (size_of b)"
  shows "\<exists>m'. write_val host e v offset (m, b) = (None, (m', b)) \<and> valid m' b \<and>
           contents m' b = Some (take (unat offset) old
              @ (if CurrentEndian host \<noteq> e then Swizzle (union_bytes host v) else union_bytes host v)
              @ drop (unat offset + sizeof (type_of v)) old)"
proof -
  define bytes where "bytes = (if CurrentEndian host \<noteq> e then Swizzle (union_bytes host v) else union_bytes host v)"
  have len: "length bytes = sizeof (type_of v)"
    by (simp add: bytes_def Swizzle_rev length_union_bytes)
  have ne: "bytes \<noteq> []" using len sizeof_pos(1)[of "type_of v"] by auto
  from store_in_buffer[OF assms(1,2) _ ne, of offset] assms(3) len
  obtain m' where "store m (ptr_add (begin_of b) offset) bytes = Some m'" "valid m' b"
    "contents m' b = Some (take (unat offset) old @ bytes @ drop (unat offset + sizeof (type_of v)) old)"
    by auto
  then show ?thesis
    using in_bounds_check[OF assms(3)]
    by (auto simp: write_val_def Endian_write_def Let_def bytes_def)
qed

lemma write_out_of_range:
  assumes "unat offset + sizeof (type_of v) > unat (size_of b)" "unat offset + sizeof (type_of v) < 2 ^ 64"
  shows "write_val host e v offset (m, b) = (Some OutOfRange, (m, b))"
  using bounds_check_iff[OF assms(2), of "size_of b"] assms(1) by (simp add: write_val_def)

lemma write_val_size: "size_of (snd (snd (write_val host e v offset s))) = size_of (snd s)"
  by (cases s) (auto simp: write_val_def split: sum.splits)

text \<open>
  Claim C2. \<^verbatim>\<open>read<T>(offset)\<close> and \<^verbatim>\<open>write<T>(value, offset)\<close> are to fail with OutOfRange
  exactly when \<open>offset + sizeof(T)\<close> exceeds \<open>size()\<close>. The code adds in \<^verbatim>\<open>size_t\<close>: at
  offset \<open>2^64 - 1\<close> the sum for a 16-bit type wraps to 1, the test passes on a buffer of
  4 bytes, and the codec is handed a pointer outside the buffer. Neither call reports
  OutOfRange. Where the sum does not wrap the claim holds: \<open>read_in_range\<close>,
  \<open>read_out_of_range\<close>, \<open>write_in_range\<close>, \<open>write_out_of_range\<close>, \<open>write_val_size\<close>.
\<close>

theorem read_bounds_check_wraps:
  "unat (0xFFFFFFFFFFFFFFFF :: size_t) + sizeof T_uint16 > unat (size_of demo_buffer) \<and>
   read host T_uint16 e (demo_memory, demo_buffer) 0xFFFFFFFFFFFFFFFF = Inl MemoryFault \<and>
   write_val host e (UInt16 w) 0xFFFFFFFFFFFFFFFF (demo_memory, demo_buffer)
     = (Some MemoryFault, (demo_memory, demo_buffer))"
proof -
  have len: "length (if CurrentEndian host \<noteq> e then Swizzle (union_bytes host (UInt16 w)) else union_bytes host (UInt16 w)) = 2"
    by (simp add: Swizzle_rev length_union_bytes)
  have st: "store demo_memory (Ptr 0 18446744073709551615) bs = None" if "length bs = 2" for bs
    using that by (auto simp: store_def demo_memory_def block_at_def)
  have r: "read host T_uint16 e (demo_memory, demo_buffer) 0xFFFFFFFFFFFFFFFF = Inl MemoryFault"
    by (simp add: read_def size_of_def begin_of_def demo_buffer_def Endian_read_def load_def
        demo_memory_def block_at_def)
  have w: "write_val host e (UInt16 w) 0xFFFFFFFFFFFFFFFF (demo_memory, demo_buffer)
     = (Some MemoryFault, (demo_memory, demo_buffer))"
    using st[OF len]
    by (simp add: write_val_def size_of_def begin_of_def demo_buffer_def Endian_write_def Let_def)
  have b: "unat (0xFFFFFFFFFFFFFFFF :: size_t) + sizeof T_uint16 > unat (size_of demo_buffer)"
    by (simp add: size_of_def demo_buffer_def)
  show ?thesis
    using b r w by blast
qed

section \<open>The cursor\<close>

lemma sprintf_lengths:
  "sprintf_length BufferT_xran_format = 66"
  "sprintf_length (StreamBufferT_xran_format True) = 84"
  "sprintf_length (StreamBufferT_xran_format False) = 86"
  by (simp_all add: sprintf_length_def BufferT_xran_format_def StreamBufferT_xran_format_def)

lemma BufferT_xran_fits: "xran_outcome BufferT_xran_format = OutOfRange"
  by (simp add: xran_outcome_def sprintf_lengths)

lemma StreamBufferT_xran_overflows: "StreamBufferT_xran read_action = MemoryFault"
  by (cases read_action) (simp_all add: StreamBufferT_xran_def xran_outcome_def sprintf_lengths)

lemma stream_read_past_end:
  assumes "valid_stream m st"
    "unat (read_index_m st) + sizeof ty > unat (size_of (buffer_m st))"
  shows "stream_read host ty e (m, st) = (Inl MemoryFault, st)"
proof -
  have "unat (read_index_m st) + sizeof ty < 2 ^ 64"
    using assms(1) sizeof_pos(2)[of ty] by (intro index_no_wrap) (simp_all add: valid_stream_def)
  from bounds_check_iff[OF this, of "size_of (buffer_m st)"] assms(2)
  show ?thesis by (simp add: stream_read_def StreamBufferT_xran_overflows)
qed

lemma stream_read_ok:
  assumes "valid_stream m st" "contents m (buffer_m st) = Some old"
    "unat (read_index_m st) + sizeof ty \<le> unat (size_of (buffer_m st))"
  shows "stream_read host ty e (m, st)
           = (Inr (union_val host ty
                    (if CurrentEndian host \<noteq> e
                     then Swizzle (take (sizeof ty) (drop (unat (read_index_m st)) old))
                     else take (sizeof ty) (drop (unat (read_index_m st)) old))),
              st\<lparr>read_index_m := read_index_m st + of_nat (sizeof ty)\<rparr>)"
proof -
  from assms(1) have v: "valid m (buffer_m st)" by (simp add: valid_stream_def)
  show ?thesis
    using in_bounds_check[OF assms(3)] read_in_range[OF v assms(2,3), of host e]
    by (simp add: stream_read_def read_def Let_def)
qed

lemma stream_write_past_end:
  assumes "valid_stream m st"
    "unat (write_index_m st) + sizeof (type_of v) > unat (size_of (buffer_m st))"
  shows "stream_write host e v (m, st) = (Some MemoryFault, (m, st))"
proof -
  have "unat (write_index_m st) + sizeof (type_of v) < 2 ^ 64"
    using assms(1) sizeof_pos(2)[of "type_of v"]
    by (intro index_no_wrap) (simp_all add: valid_stream_def)
  from bounds_check_iff[OF this, of "size_of (buffer_m st)"] assms(2)
  show ?thesis by (simp add: stream_write_def StreamBufferT_xran_overflows)
qed

lemma stream_write_ok:
  assumes "valid_stream m st" "contents m (buffer_m st) = Some old"
    "unat (write_index_m st) + sizeof (type_of v) \<le> unat (size_of (buffer_m st))"
  shows "\<exists>m'. stream_write host e v (m, st)
              = (None, (m', st\<lparr>write_index_m := write_index_m st + of_nat (sizeof (type_of v))\<rparr>)) \<and>
             valid m' (buffer_m st) \<and>
             contents m' (buffer_m st)
               = Some (take (unat (write_index_m st)) old
                       @ (if CurrentEndian host \<noteq> e then Swizzle (union_bytes host v)
                          else union_bytes host v)
                       @ drop (unat (write_index_m st) + sizeof (type_of v)) old)"
proof -
  from assms(1) have v: "valid m (buffer_m st)" by (simp add: valid_stream_def)
  from write_in_range[OF v assms(2,3), of host e] obtain m' where
    w: "write_val host e v (write_index_m st) (m, buffer_m st) = (None, (m', buffer_m st))"
    and v': "valid m' (buffer_m st)"
    and c: "contents m' (buffer_m st)
               = Some (take (unat (write_index_m st)) old
                       @ (if CurrentEndian host \<noteq> e then Swizzle (union_bytes host v)
                          else union_bytes host v)
                       @ drop (unat (write_index_m st) + sizeof (type_of v)) old)"
    by blast
  from w have "stream_write host e v (m, st)
              = (None, (m', st\<lparr>write_index_m := write_index_m st + of_nat (sizeof (type_of v))\<rparr>))"
    using in_bounds_check[OF assms(3)]
    by (auto simp: stream_write_def write_val_def Let_def split: sum.splits)
  with v' c show ?thesis by blast
qed

lemma stream_read_size:
  "size_of (buffer_m (snd (stream_read host ty e s))) = size_of (buffer_m (snd s))"
  by (cases s) (simp add: stream_read_def Let_def)

lemma stream_write_size:
  "size_of (buffer_m (snd (snd (stream_write host e v s)))) = size_of (buffer_m (snd s))"
  by (cases s) (simp add: stream_write_def Let_def split: sum.splits)

lemma stream_read_8bit_past_end:
  assumes "valid_stream m st" "unat (read_index_m st) + 1 > unat (size_of (buffer_m st))"
  shows "stream_read_8bit (m, st) = (Inl MemoryFault, st)"
proof -
  have "unat (read_index_m st) + 1 < 2 ^ 64"
    using assms(1) by (intro index_no_wrap) (simp_all add: valid_stream_def)
  from bounds_check_iff[OF this, of "size_of (buffer_m st)"] assms(2)
  show ?thesis by (simp add: stream_read_8bit_def StreamBufferT_xran_overflows)
qed

lemma stream_read_8bit_ok:
  assumes "valid_stream m st" "contents m (buffer_m st) = Some old"
    "unat (read_index_m st) + 1 \<le> unat (size_of (buffer_m st))"
  shows "stream_read_8bit (m, st)
           = (Inr (old ! unat (read_index_m st)), st\<lparr>read_index_m := read_index_m st + 1\<rparr>)"
proof -
  from assms(1) have v: "valid m (buffer_m st)" by (simp add: valid_stream_def)
  have len: "length old = unat (size_of (buffer_m st))"
    using assms(2) by (simp add: contents_def load_length)
  have ld: "load m (ptr_add (begin_of (buffer_m st)) (read_index_m st)) 1
      = Some (take 1 (drop (unat (read_index_m st)) old))"
    by (rule load_in_buffer[OF v assms(2,3)])
  have "take 1 (drop (unat (read_index_m st)) old) = [old ! unat (read_index_m st)]"
    using assms(3) len by (simp add: take_Suc_conv_app_nth Cons_nth_drop_Suc[symmetric])
  with ld have ld1: "load m (ptr_add (begin_of (buffer_m st)) (read_index_m st)) 1
      = Some [old ! unat (read_index_m st)]" by simp
  show ?thesis
    using in_bounds_check[OF assms(3)] ld1
    by (simp add: stream_read_8bit_def Let_def)
qed

lemma stream_write_8bit_past_end:
  assumes "valid_stream m st" "unat (write_index_m st) + 1 > unat (size_of (buffer_m st))"
  shows "stream_write_8bit x (m, st) = (Some MemoryFault, (m, st))"
proof -
  have "unat (write_index_m st) + 1 < 2 ^ 64"
    using assms(1) by (intro index_no_wrap) (simp_all add: valid_stream_def)
  from bounds_check_iff[OF this, of "size_of (buffer_m st)"] assms(2)
  show ?thesis by (simp add: stream_write_8bit_def StreamBufferT_xran_overflows)
qed

lemma stream_write_8bit_ok:
  assumes "valid_stream m st" "contents m (buffer_m st) = Some old"
    "unat (write_index_m st) + 1 \<le> unat (size_of (buffer_m st))"
  shows "\<exists>m'. stream_write_8bit x (m, st)
              = (None, (m', st\<lparr>write_index_m := write_index_m st + 1\<rparr>)) \<and>
             valid m' (buffer_m st) \<and>
             contents m' (buffer_m st)
               = Some (take (unat (write_index_m st)) old @ [x]
                       @ drop (unat (write_index_m st) + 1) old)"
proof -
  from assms(1) have v: "valid m (buffer_m st)" by (simp add: valid_stream_def)
  from store_in_buffer[OF v assms(2), of "write_index_m st" "[x]"] assms(3)
  obtain m' where st: "store m (ptr_add (begin_of (buffer_m st)) (write_index_m st)) [x] = Some m'"
    and v': "valid m' (buffer_m st)"
    and c: "contents m' (buffer_m st)
               = Some (take (unat (write_index_m st)) old @ [x]
                       @ drop (unat (write_index_m st) + 1) old)"
    by auto
  show ?thesis
    using in_bounds_check[OF assms(3)] st v' c
    by (simp add: stream_write_8bit_def Let_def)
qed

lemma valid_size_bound:
  assumes "valid m b"
  shows "unat (size_of b) \<le> PTRDIFF_MAX"
proof (cases "size_m b = 0")
  case True
  then show ?thesis by (simp add: size_of_def)
next
  case False
  from assms False obtain a off blk where "block_at m a = Some blk" "length blk \<le> PTRDIFF_MAX"
    "off + unat (capacity_m b) \<le> length blk" "unat (size_m b) \<le> unat (capacity_m b)"
    by (rule valid_PtrE)
  then show ?thesis by (simp add: size_of_def)
qed

lemma stream_read_valid:
  assumes "valid_stream m st"
  shows "valid_stream m (snd (stream_read host ty e (m, st)))"
proof (cases "unat (read_index_m st) + sizeof ty \<le> unat (size_of (buffer_m st))")
  case True
  from assms have vb: "valid m (buffer_m st)" by (simp add: valid_stream_def)
  from vb obtain old where old: "contents m (buffer_m st) = Some old"
    by (rule contents_valid)
  have s: "snd (stream_read host ty e (m, st)) = st\<lparr>read_index_m := read_index_m st + of_nat (sizeof ty)\<rparr>"
    by (simp add: stream_read_ok[OF assms old True])
  have "unat (size_of (buffer_m st)) \<le> PTRDIFF_MAX"
    using vb by (rule valid_size_bound)
  moreover have "unat (read_index_m st + of_nat (sizeof ty)) = unat (read_index_m st) + sizeof ty"
    using True size_t_bound[of "size_of (buffer_m st)"] by (intro unat_plus_small) simp
  ultimately show ?thesis
    using assms True by (simp add: s valid_stream_def)
next
  case False
  then show ?thesis using stream_read_past_end[OF assms, of ty host e] assms by simp
qed

lemma stream_write_valid:
  assumes "valid_stream m st"
  shows "valid_stream (fst (snd (stream_write host e v (m, st)))) (snd (snd (stream_write host e v (m, st))))"
proof (cases "unat (write_index_m st) + sizeof (type_of v) \<le> unat (size_of (buffer_m st))")
  case True
  from assms have vb: "valid m (buffer_m st)" by (simp add: valid_stream_def)
  from vb obtain old where old: "contents m (buffer_m st) = Some old"
    by (rule contents_valid)
  from stream_write_ok[OF assms old True, of host e] obtain m' where
    s: "stream_write host e v (m, st)
              = (None, (m', st\<lparr>write_index_m := write_index_m st + of_nat (sizeof (type_of v))\<rparr>))"
    and v': "valid m' (buffer_m st)"
    by blast
  have "unat (size_of (buffer_m st)) \<le> PTRDIFF_MAX"
    using vb by (rule valid_size_bound)
  moreover have "unat (write_index_m st + of_nat (sizeof (type_of v))) = unat (write_index_m st) + sizeof (type_of v)"
    using True size_t_bound[of "size_of (buffer_m st)"] by (intro unat_plus_small) simp
  ultimately show ?thesis
    using assms True v' by (simp add: s valid_stream_def)
next
  case False
  then show ?thesis using stream_write_past_end[OF assms, of v host e] assms by simp
qed

lemma stream_never_OutOfRange:
  "fst (stream_read host ty e s) \<noteq> Inl OutOfRange"
  "fst (stream_write host e v s) \<noteq> Some OutOfRange"
  "fst (stream_read_8bit s) \<noteq> Inl OutOfRange"
  "fst (stream_write_8bit x s) \<noteq> Some OutOfRange"
  by (cases s; auto simp: stream_read_def stream_write_def stream_read_8bit_def
        stream_write_8bit_def StreamBufferT_xran_overflows Endian_read_def Endian_write_def Let_def
        split: option.splits list.splits sum.splits if_splits)+

text \<open>
  Claim C4. A cursor read or write past the end is to fail with OutOfRange and leave its
  index alone. The bounds test and the indices are as the claim says, but
  \<^verbatim>\<open>StreamBufferT::xran\<close> formats 84 characters (read) or 86 (write) into \<^verbatim>\<open>char buf[80]\<close>
  before it throws, so every failing call runs into undefined behaviour first and none
  reports a clean OutOfRange. On the 4-byte buffer, reading or writing a 64-bit value at
  index 0 is such a call. The calls that pass the test do what the claim says:
  \<open>stream_read_ok\<close>, \<open>stream_write_ok\<close>, \<open>stream_read_8bit_ok\<close>, \<open>stream_write_8bit_ok\<close>,
  \<open>stream_read_size\<close>, \<open>stream_write_size\<close>.
\<close>

theorem cursor_xran_overflows:
  "sprintf_length (StreamBufferT_xran_format True) + 1 > 80 \<and>
   sprintf_length (StreamBufferT_xran_format False) + 1 > 80 \<and>
   unat (read_index_m demo_stream) + sizeof T_uint64 > unat (size_of (buffer_m demo_stream)) \<and>
   stream_read host T_uint64 e (demo_memory, demo_stream) = (Inl MemoryFault, demo_stream) \<and>
   unat (write_index_m demo_stream) + sizeof (type_of (UInt64 w))
     > unat (size_of (buffer_m demo_stream)) \<and>
   stream_write host e (UInt64 w) (demo_memory, demo_stream)
     = (Some MemoryFault, (demo_memory, demo_stream)) \<and>
   fst (stream_read host ty e s) \<noteq> Inl OutOfRange \<and>
   fst (stream_write host e v s) \<noteq> Some OutOfRange \<and>
   fst (stream_read_8bit s) \<noteq> Inl OutOfRange \<and>
   fst (stream_write_8bit x s) \<noteq> Some OutOfRange"
proof -
  have r: "stream_read host T_uint64 e (demo_memory, demo_stream) = (Inl MemoryFault, demo_stream)"
    by (simp add: stream_read_def demo_stream_def demo_buffer_def size_of_def
        StreamBufferT_xran_overflows)
  have w: "stream_write host e (UInt64 w) (demo_memory, demo_stream)
     = (Some MemoryFault, (demo_memory, demo_stream))"
    by (simp add: stream_write_def demo_stream_def demo_buffer_def size_of_def
        StreamBufferT_xran_overflows)
  have b: "unat (read_index_m demo_stream) + sizeof T_uint64 > unat (size_of (buffer_m demo_stream))"
    "unat (write_index_m demo_stream) + sizeof (type_of (UInt64 w))
     > unat (size_of (buffer_m demo_stream))"
    by (simp_all add: demo_stream_def demo_buffer_def size_of_def)
  show ?thesis
    using r w b by (simp add: sprintf_lengths stream_never_OutOfRange)
qed

section \<open>Filling\<close>

lemma unat_add_no_wrap:
  "unat (x :: size_t) + unat y < 2 ^ 64 \<Longrightarrow> unat (x + y) = unat x + unat y"
  by (simp add: unat_word_ariths take_bit_nat_eq_self_iff)

lemma std_fill_buffer:
  assumes v: "valid m b" and old: "contents m b = Some old"
    and le: "unat offset + unat n \<le> unat (size_of b)"
  shows "\<exists>m'. std_fill m (ptr_add (begin_of b) offset) (ptr_add (ptr_add (begin_of b) offset) n) val
               = Some m' \<and> valid m' b \<and>
             contents m' b = Some (take (unat offset) old @ replicate (unat n) val
                                     @ drop (unat offset + unat n) old)"
proof (cases "size_m b = 0")
  case True
  with le have z: "offset = 0" "n = 0" by (simp_all add: size_of_def unat_eq_0)
  from v old True have "old = []"
    by (auto elim!: contents_valid simp: size_of_def)
  moreover have "begin_of b = Null"
    using v True by (cases "buf_m b") (auto simp: valid_def begin_of_def)
  ultimately show ?thesis
    using v old z by (simp add: std_fill_def)
next
  case False
  from v False obtain a off blk where buf: "buf_m b = Ptr a off"
    and blk: "block_at m a = Some blk"
    by (rule valid_PtrE)
  have sf: "std_fill m (ptr_add (begin_of b) offset) (ptr_add (ptr_add (begin_of b) offset) n) val
      = store m (ptr_add (begin_of b) offset) (replicate (unat n) val)"
    by (simp add: std_fill_def begin_of_def buf)
  show ?thesis
  proof (cases "n = 0")
    case True
    from old have "length old = unat (size_of b)" by (simp add: contents_def load_length)
    then show ?thesis
      using True v old sf by (simp add: store_def)
  next
    case False
    then have ne: "replicate (unat n) val \<noteq> []" by (simp add: unat_eq_0)
    from store_in_buffer[OF v old _ ne, of offset] le sf show ?thesis by simp
  qed
qed

lemma fill_count:
  "fill val offset count (m, b) =
     (case std_fill m (ptr_add (begin_of b) offset)
             (ptr_add (ptr_add (begin_of b) offset)
                (if count = 0 \<or> offset + count > size_of b then size_of b - offset else count)) val of
        None \<Rightarrow> (Some MemoryFault, (m, b))
      | Some m' \<Rightarrow> (None, (m', b)))"
  by (simp add: fill_def Let_def)

text \<open>
  Claim C8, as the code has it. With \<open>offset \<le> size()\<close>: a \<open>count\<close> of 0, or one that
  reaches past the end (the sum not wrapping), is clamped and the bytes from \<open>offset\<close> to
  the end are overwritten, with no exception; a positive \<open>count\<close> with
  \<open>offset + count \<le> size()\<close> overwrites exactly \<open>count\<close> bytes from \<open>offset\<close>.
\<close>

theorem fill_clamps:
  assumes "valid m b" and "contents m b = Some old" and "unat offset \<le> unat (size_of b)"
  shows "((count = 0 \<or> unat offset + unat count > unat (size_of b)) \<and>
            unat offset + unat count < 2 ^ 64 \<longrightarrow>
          (\<exists>m'. fill val offset count (m, b) = (None, (m', b)) \<and>
                contents m' b = Some (take (unat offset) old
                                        @ replicate (unat (size_of b) - unat offset) val))) \<and>
         (count \<noteq> 0 \<and> unat offset + unat count \<le> unat (size_of b) \<longrightarrow>
          (\<exists>m'. fill val offset count (m, b) = (None, (m', b)) \<and>
                contents m' b = Some (take (unat offset) old @ replicate (unat count) val
                                        @ drop (unat offset + unat count) old)))"
proof (intro conjI impI)
  assume a: "(count = 0 \<or> unat offset + unat count > unat (size_of b)) \<and>
            unat offset + unat count < 2 ^ 64"
  then have "unat (offset + count) = unat offset + unat count"
    by (simp add: unat_add_no_wrap)
  with a have c: "count = 0 \<or> offset + count > size_of b"
    by (auto simp: word_less_nat_alt)
  have ole: "offset \<le> size_of b" using assms(3) by (simp add: word_le_nat_alt)
  then have u: "unat (size_of b - offset) = unat (size_of b) - unat offset"
    by (rule unat_sub)
  have len: "length old = unat (size_of b)"
    using assms(2) by (simp add: contents_def load_length)
  from std_fill_buffer[OF assms(1,2), of offset "size_of b - offset" val] u assms(3) len
  obtain m' where "std_fill m (ptr_add (begin_of b) offset)
        (ptr_add (ptr_add (begin_of b) offset) (size_of b - offset)) val = Some m'"
    "contents m' b = Some (take (unat offset) old @ replicate (unat (size_of b) - unat offset) val)"
    by auto
  with c show "\<exists>m'. fill val offset count (m, b) = (None, (m', b)) \<and>
                contents m' b = Some (take (unat offset) old
                                        @ replicate (unat (size_of b) - unat offset) val)"
    by (auto simp: fill_count)
next
  assume a: "count \<noteq> 0 \<and> unat offset + unat count \<le> unat (size_of b)"
  then have "unat offset + unat count < 2 ^ 64"
    using size_t_bound[of "size_of b"] by simp
  then have "unat (offset + count) = unat offset + unat count"
    by (simp add: unat_add_no_wrap)
  with a have c: "\<not> (count = 0 \<or> offset + count > size_of b)"
    by (auto simp: word_less_nat_alt)
  from std_fill_buffer[OF assms(1,2), of offset count val] a
  obtain m' where "std_fill m (ptr_add (begin_of b) offset)
        (ptr_add (ptr_add (begin_of b) offset) count) val = Some m'"
    "contents m' b = Some (take (unat offset) old @ replicate (unat count) val
                                        @ drop (unat offset + unat count) old)"
    by auto
  with c show "\<exists>m'. fill val offset count (m, b) = (None, (m', b)) \<and>
                contents m' b = Some (take (unat offset) old @ replicate (unat count) val
                                        @ drop (unat offset + unat count) old)"
    by (auto simp: fill_count)
qed

lemma contents_demo: "contents demo_memory demo_buffer = Some [0xff, 0xee, 0xdd, 0xcc]"
  by (simp add: contents_def load_def begin_of_def size_of_def demo_memory_def demo_buffer_def
      block_at_def)

theorem fill_clamps_counterexample:
  "(100 :: size_t) > 0 \<and> unat (2 :: size_t) + unat (100 :: size_t) > unat (size_of demo_buffer) \<and>
   fill 0xAA 2 100 (demo_memory, demo_buffer)
     = (None, (demo_memory\<lparr>blocks := [Some [0xff, 0xee, 0xAA, 0xAA]]\<rparr>, demo_buffer)) \<and>
   fst (fill 0xAA 2 100 (demo_memory, demo_buffer)) \<noteq> Some OutOfRange"
proof -
  have r2: "replicate 2 x = [x, x]" for x :: byte
    by (simp add: numeral_2_eq_2)
  have "fill 0xAA 2 100 (demo_memory, demo_buffer)
     = (None, (demo_memory\<lparr>blocks := [Some [0xff, 0xee, 0xAA, 0xAA]]\<rparr>, demo_buffer))"
    by (simp add: fill_count std_fill_def store_def size_of_def begin_of_def demo_buffer_def
        demo_memory_def block_at_def r2)
  then show ?thesis by (simp add: size_of_def demo_buffer_def)
qed

theorem fill_clamps_witness:
  "valid demo_memory demo_buffer \<and>
   contents demo_memory demo_buffer = Some [0xff, 0xee, 0xdd, 0xcc] \<and>
   unat (2 :: size_t) \<le> unat (size_of demo_buffer) \<and>
   unat (2 :: size_t) + unat (100 :: size_t) > unat (size_of demo_buffer) \<and>
   unat (2 :: size_t) + unat (100 :: size_t) < 2 ^ 64 \<and>
   (\<exists>m'. fill 0xAA 2 100 (demo_memory, demo_buffer) = (None, (m', demo_buffer)) \<and>
         contents m' demo_buffer = Some [0xff, 0xee, 0xAA, 0xAA]) \<and>
   (1 :: size_t) \<noteq> 0 \<and> unat (2 :: size_t) + unat (1 :: size_t) \<le> unat (size_of demo_buffer) \<and>
   (\<exists>m'. fill 0xAA 2 1 (demo_memory, demo_buffer) = (None, (m', demo_buffer)) \<and>
         contents m' demo_buffer = Some [0xff, 0xee, 0xAA, 0xcc])"
proof -
  have o: "unat (2 :: size_t) \<le> unat (size_of demo_buffer)"
    by (simp add: size_of_def demo_buffer_def)
  note h = fill_clamps[OF valid_demo contents_demo o]
  have a1: "unat (2 :: size_t) + unat (100 :: size_t) > unat (size_of demo_buffer)"
    and a2: "unat (2 :: size_t) + unat (100 :: size_t) < 2 ^ 64"
    and a3: "unat (2 :: size_t) + unat (1 :: size_t) \<le> unat (size_of demo_buffer)"
    by (simp_all add: size_of_def demo_buffer_def)
  have r2: "replicate 2 x = [x, x]" for x :: byte
    by (simp add: numeral_2_eq_2)
  have e1: "take (unat (2 :: size_t)) [0xff, 0xee, 0xdd, 0xcc :: byte]
              @ replicate (unat (size_of demo_buffer) - unat (2 :: size_t)) 0xAA
            = [0xff, 0xee, 0xAA, 0xAA]"
    by (simp add: size_of_def demo_buffer_def r2)
  have e2: "take (unat (2 :: size_t)) [0xff, 0xee, 0xdd, 0xcc :: byte]
              @ replicate (unat (1 :: size_t)) 0xAA
              @ drop (unat (2 :: size_t) + unat (1 :: size_t)) [0xff, 0xee, 0xdd, 0xcc]
            = [0xff, 0xee, 0xAA, 0xcc]"
    by simp
  from h[of 100 "0xAA"] a1 a2
  have c1: "\<exists>m'. fill 0xAA 2 100 (demo_memory, demo_buffer) = (None, (m', demo_buffer)) \<and>
         contents m' demo_buffer = Some [0xff, 0xee, 0xAA, 0xAA]"
    unfolding e1 by blast
  have n1: "(1 :: size_t) \<noteq> 0" by simp
  from h[of 1 "0xAA"] a3 n1
  have c2: "\<exists>m'. fill 0xAA 2 1 (demo_memory, demo_buffer) = (None, (m', demo_buffer)) \<and>
         contents m' demo_buffer = Some [0xff, 0xee, 0xAA, 0xcc]"
    unfolding e2 by blast
  show ?thesis
    using valid_demo contents_demo o a1 a2 a3 n1 c1 c2 by blast
qed

section \<open>Reserving, case by case\<close>

lemma block_at_append:
  "block_at (m\<lparr>blocks := bl @ [x]\<rparr>) a =
     (if a < length bl then bl ! a else if a = length bl then x else None)"
  by (auto simp: block_at_def nth_append)

lemma reserve_same: "reserve (capacity_m c) (m, c) = (None, (m, c))"
  by (simp add: reserve_def)

lemma reserve_owned:
  assumes "\<not> ref_m c" "n \<noteq> capacity_m c"
  shows "reserve n (m, c) =
     (case reallocate m (buf_m c) (unat (next_capacity (capacity_m c) n)) of
        (Null, m') \<Rightarrow> (Some AllocationError, (m', c\<lparr>capacity_m := next_capacity (capacity_m c) n\<rparr>))
      | (p, m') \<Rightarrow> (None, (m', c\<lparr>capacity_m := next_capacity (capacity_m c) n, buf_m := p\<rparr>)))"
proof -
  from assms(2) have "n > capacity_m c \<or> n < capacity_m c" by auto
  with assms(1) show ?thesis
    by (cases "n > capacity_m c")
      (auto simp: reserve_def next_capacity_def Let_def split: prod.splits pointer.splits)
qed

lemma reserve_borrowed:
  assumes "ref_m c" "n \<noteq> capacity_m c"
  shows "reserve n (m, c) =
     (case allocate m (unat (next_capacity (capacity_m c) n)) of
        (p, m1) \<Rightarrow>
          (case memcpy m1 p (buf_m c) (unat (size_m c)) of
             None \<Rightarrow> (Some MemoryFault, (m1, c\<lparr>capacity_m := next_capacity (capacity_m c) n\<rparr>))
           | Some m2 \<Rightarrow>
               if p = Null
               then (Some AllocationError,
                     (m2, c\<lparr>capacity_m := next_capacity (capacity_m c) n, ref_m := False\<rparr>))
               else (None, (m2, c\<lparr>capacity_m := next_capacity (capacity_m c) n, ref_m := False,
                                 buf_m := p\<rparr>))))"
proof -
  from assms(2) have "n > capacity_m c \<or> n < capacity_m c" by auto
  with assms(1) show ?thesis
    by (cases "n > capacity_m c")
      (auto simp: reserve_def next_capacity_def Let_def split: prod.splits option.splits)
qed

lemma reserve_capacity:
  "n \<noteq> capacity_m c \<Longrightarrow>
   capacity_m (snd (snd (reserve n (m, c)))) = next_capacity (capacity_m c) n"
  by (cases "ref_m c")
    (auto simp: reserve_owned reserve_borrowed split: prod.splits pointer.splits option.splits)

lemma reserve_size: "size_m (snd (snd (reserve n (m, c)))) = size_m c"
  by (cases "n = capacity_m c"; cases "ref_m c")
    (auto simp: reserve_same reserve_owned reserve_borrowed
      split: prod.splits pointer.splits option.splits)

lemma reserve_counter: "shrink_counter_m (snd (snd (reserve n (m, c)))) = shrink_counter_m c"
  by (cases "n = capacity_m c"; cases "ref_m c")
    (auto simp: reserve_same reserve_owned reserve_borrowed
      split: prod.splits pointer.splits option.splits)

lemma reserve_not_ref: "\<not> ref_m c \<Longrightarrow> \<not> ref_m (snd (snd (reserve n (m, c))))"
  by (cases "n = capacity_m c")
    (auto simp: reserve_same reserve_owned split: prod.splits pointer.splits option.splits)

lemma reserve_success_not_ref:
  "n \<noteq> capacity_m c \<Longrightarrow> reserve n (m, c) = (None, (m', c')) \<Longrightarrow> \<not> ref_m c'"
  by (cases "ref_m c")
    (auto simp: reserve_owned reserve_borrowed split: prod.splits pointer.splits option.splits if_splits)

lemma allocate_eq:
  "allocate m n =
     (if can_alloc m n
      then (Ptr (length (blocks m)) 0, m\<lparr>blocks := blocks m @ [Some (replicate n 0)]\<rparr>)
      else (Null, m))"
  by (simp add: allocate_def can_alloc_def)

lemma reserve_owned_null:
  assumes "\<not> ref_m c" "buf_m c = Null" "n \<noteq> capacity_m c"
  shows "reserve n (m, c) =
     (if can_alloc m (unat (next_capacity (capacity_m c) n))
      then (None, (m\<lparr>blocks := blocks m
                          @ [Some (replicate (unat (next_capacity (capacity_m c) n)) 0)]\<rparr>,
                   c\<lparr>capacity_m := next_capacity (capacity_m c) n,
                     buf_m := Ptr (length (blocks m)) 0\<rparr>))
      else (Some AllocationError, (m, c\<lparr>capacity_m := next_capacity (capacity_m c) n\<rparr>)))"
  using assms by (simp add: reserve_owned reallocate_def allocate_eq)

lemma reserve_owned_ptr:
  assumes "\<not> ref_m c" "buf_m c = Ptr a off" "block_at m a = Some blk" "n \<noteq> capacity_m c"
  shows "reserve n (m, c) =
     (if unat (next_capacity (capacity_m c) n) = 0
      then (Some AllocationError,
            (m\<lparr>blocks := (blocks m)[a := None]\<rparr>, c\<lparr>capacity_m := next_capacity (capacity_m c) n\<rparr>))
      else if can_alloc m (unat (next_capacity (capacity_m c) n))
      then (None, (m\<lparr>blocks := (blocks m)[a := None]
                          @ [Some (take (unat (next_capacity (capacity_m c) n)) blk
                                   @ replicate (unat (next_capacity (capacity_m c) n) - length blk) 0)]\<rparr>,
                   c\<lparr>capacity_m := next_capacity (capacity_m c) n,
                     buf_m := Ptr (length (blocks m)) 0\<rparr>))
      else (Some AllocationError, (m, c\<lparr>capacity_m := next_capacity (capacity_m c) n\<rparr>)))"
  using assms by (simp add: reserve_owned reallocate_def can_alloc_def)

lemma reserve_borrowed_ptr:
  assumes "ref_m c" "buf_m c = Ptr a off" "block_at m a = Some blk"
    "off + unat (size_m c) \<le> length blk" "n \<noteq> capacity_m c"
  shows "reserve n (m, c) =
     (if can_alloc m (unat (next_capacity (capacity_m c) n))
      then if unat (size_m c) \<le> unat (next_capacity (capacity_m c) n)
        then (None, (m\<lparr>blocks := blocks m
                          @ [Some (take (unat (size_m c)) (drop off blk)
                                   @ replicate (unat (next_capacity (capacity_m c) n) - unat (size_m c)) 0)]\<rparr>,
                   c\<lparr>capacity_m := next_capacity (capacity_m c) n, ref_m := False,
                     buf_m := Ptr (length (blocks m)) 0\<rparr>))
        else (Some MemoryFault,
              (m\<lparr>blocks := blocks m @ [Some (replicate (unat (next_capacity (capacity_m c) n)) 0)]\<rparr>,
               c\<lparr>capacity_m := next_capacity (capacity_m c) n\<rparr>))
      else if size_m c = 0
        then (Some AllocationError,
              (m, c\<lparr>capacity_m := next_capacity (capacity_m c) n, ref_m := False\<rparr>))
        else (Some MemoryFault, (m, c\<lparr>capacity_m := next_capacity (capacity_m c) n\<rparr>)))"
proof -
  let ?cap = "unat (next_capacity (capacity_m c) n)"
  let ?sz = "unat (size_m c)"
  let ?m1 = "m\<lparr>blocks := blocks m @ [Some (replicate ?cap 0)]\<rparr>"
  have a: "a < length (blocks m)" and ba: "blocks m ! a = Some blk"
    using assms(3) by (simp_all add: block_at_SomeD)
  have ld: "load m (Ptr a off) ?sz = Some (take ?sz (drop off blk))"
    using assms(3,4) by (simp add: load_def)
  have ld1: "load ?m1 (Ptr a off) ?sz = Some (take ?sz (drop off blk))"
    using assms(4) a ba by (simp add: load_def block_at_append)
  have lenbs: "length (take ?sz (drop off blk)) = ?sz"
    using assms(4) by simp
  show ?thesis
  proof (cases "can_alloc m ?cap")
    case True
    show ?thesis
    proof (cases "?sz \<le> ?cap")
      case le: True
      have st: "store ?m1 (Ptr (length (blocks m)) 0) (take ?sz (drop off blk)) =
          Some (m\<lparr>blocks := blocks m
                  @ [Some (take ?sz (drop off blk) @ replicate (?cap - ?sz) 0)]\<rparr>)"
      proof (cases "?sz = 0")
        case True
        then show ?thesis by (simp add: store_def)
      next
        case False
        then have "take ?sz (drop off blk) \<noteq> []" using lenbs by auto
        then show ?thesis
          using le lenbs by (simp add: store_def block_at_append min_def)
      qed
      show ?thesis
        using True le assms(1,2,5) ld1 st
        by (simp add: reserve_borrowed allocate_eq memcpy_def)
    next
      case gt: False
      then have ne: "take ?sz (drop off blk) \<noteq> []" using lenbs by auto
      have st: "store ?m1 (Ptr (length (blocks m)) 0) (take ?sz (drop off blk)) = None"
        using gt lenbs ne by (simp add: store_def block_at_append)
      show ?thesis
        using True gt assms(1,2,5) ld1 st
        by (simp add: reserve_borrowed allocate_eq memcpy_def)
    qed
  next
    case False
    show ?thesis
    proof (cases "size_m c = 0")
      case True
      then show ?thesis
        using False assms(1,2,5)
        by (simp add: reserve_borrowed allocate_eq memcpy_def load_def store_def)
    next
      case nz: False
      then have "?sz \<noteq> 0" by (simp add: unat_eq_0)
      then have ne: "take ?sz (drop off blk) \<noteq> []" using lenbs by auto
      then have "store m Null (take ?sz (drop off blk)) = None"
        by (simp add: store_def)
      then show ?thesis
        using False nz assms(1,2,5) ld
        by (simp add: reserve_borrowed allocate_eq memcpy_def)
    qed
  qed
qed

section \<open>The capacity reserve assigns\<close>

lemma storage_ok_capacity_bound:
  assumes "storage_ok m c"
  shows "unat (capacity_m c) \<le> PTRDIFF_MAX"
proof (cases "buf_m c = Null")
  case True
  with assms show ?thesis by (simp add: storage_ok_def)
next
  case False
  from storage_ok_PtrE[OF assms False] obtain a off blk where
    "block_at m a = Some blk" "length blk \<le> PTRDIFF_MAX" "off + unat (capacity_m c) \<le> length blk"
    by blast
  then show ?thesis by arith
qed

lemma next_capacity_grow:
  assumes "unat cap \<le> PTRDIFF_MAX" "n > cap"
  shows "unat (next_capacity cap n) = max (unat n) (max (2 * unat cap) 32)"
proof -
  have "unat cap + unat cap < 2 ^ 64"
    using assms(1) by (simp add: PTRDIFF_MAX_def)
  then have "unat (cap + cap) = unat cap + unat cap"
    by (rule unat_add_no_wrap)
  then have d: "unat (2 * cap) = 2 * unat cap"
    by (simp only: mult_2)
  have mx: "unat (max a b) = max (unat a) (unat b)" for a b :: size_t
    by (simp add: max_def word_le_nat_alt)
  have "next_capacity cap n = max 32 (max n (2 * cap))"
    using assms(2) by (simp add: next_capacity_def DEFAULT_MINI_SIZE_def)
  then have "unat (next_capacity cap n) = max 32 (max (unat n) (2 * unat cap))"
    by (simp only: mx d) simp
  then show ?thesis by (simp add: max_def)
qed

lemma next_capacity_shrink: "n < cap \<Longrightarrow> next_capacity cap n = n"
  by (auto simp: next_capacity_def)

lemma block_at_grow:
  "block_at (m\<lparr>blocks := blocks m @ [x]\<rparr>) b =
     (if b = length (blocks m) then x else block_at m b)"
  by (auto simp: block_at_def nth_append)

lemma block_at_move:
  "block_at (m\<lparr>blocks := (blocks m)[a := None] @ [x]\<rparr>) b =
     (if b = length (blocks m) then x else if b = a then None else block_at m b)"
  by (auto simp: block_at_def nth_append)

section \<open>What a successful reserve leaves\<close>

lemma reserve_success:
  assumes ok: "storage_ok m c" and sc: "size_m c \<le> capacity_m c"
    and ne: "n \<noteq> capacity_m c" and res: "reserve n (m, c) = (None, (m', c'))"
  shows "c' = c\<lparr>capacity_m := next_capacity (capacity_m c) n, ref_m := False,
                 buf_m := Ptr (length (blocks m)) 0\<rparr> \<and>
         can_alloc m (unat (next_capacity (capacity_m c) n)) \<and>
         length (blocks m') = Suc (length (blocks m)) \<and>
         max_alloc m' = max_alloc m \<and>
         (\<exists>newblk. block_at m' (length (blocks m)) = Some newblk \<and>
                   length newblk = unat (next_capacity (capacity_m c) n)) \<and>
         (\<forall>a. a < length (blocks m) \<longrightarrow>
              block_at m' a = (if \<not> ref_m c \<and> (\<exists>off. buf_m c = Ptr a off) then None
                               else block_at m a)) \<and>
         (\<forall>k. k \<le> unat (size_m c) \<and> k \<le> unat (next_capacity (capacity_m c) n) \<longrightarrow>
              load m' (Ptr (length (blocks m)) 0) k = load m (buf_m c) k)"
proof (cases "buf_m c = Null")
  case True
  with ok have nr: "\<not> ref_m c" and c0: "capacity_m c = 0" by (simp_all add: storage_ok_def)
  from sc c0 have s0: "size_m c = 0" by simp
  let ?cap = "unat (next_capacity (capacity_m c) n)"
  from res have ca: "can_alloc m ?cap"
    and m': "m' = m\<lparr>blocks := blocks m @ [Some (replicate ?cap 0)]\<rparr>"
    and c': "c' = c\<lparr>capacity_m := next_capacity (capacity_m c) n,
                     buf_m := Ptr (length (blocks m)) 0\<rparr>"
    unfolding reserve_owned_null[OF nr True ne] by (auto split: if_splits)
  have 1: "c' = c\<lparr>capacity_m := next_capacity (capacity_m c) n, ref_m := False,
                 buf_m := Ptr (length (blocks m)) 0\<rparr>"
    using nr by (simp add: c')
  have 3: "length (blocks m') = Suc (length (blocks m))" by (simp add: m')
  have 4: "max_alloc m' = max_alloc m" by (simp add: m')
  have 5: "\<exists>newblk. block_at m' (length (blocks m)) = Some newblk \<and> length newblk = ?cap"
    by (simp add: m' block_at_grow)
  have 6: "\<forall>a. a < length (blocks m) \<longrightarrow>
              block_at m' a = (if \<not> ref_m c \<and> (\<exists>off. buf_m c = Ptr a off) then None
                               else block_at m a)"
    using True by (simp add: m' block_at_grow)
  have 7: "\<forall>k. k \<le> unat (size_m c) \<and> k \<le> ?cap \<longrightarrow>
              load m' (Ptr (length (blocks m)) 0) k = load m (buf_m c) k"
    using s0 by (simp add: load_def)
  show ?thesis using 1 ca 3 4 5 6 7 by blast
next
  case False
  from storage_ok_PtrE[OF ok False] obtain a off blk where buf: "buf_m c = Ptr a off"
    and blk: "block_at m a = Some blk" and cap: "off + unat (capacity_m c) \<le> length blk"
    and own: "ref_m c \<or> (off = 0 \<and> length blk = unat (capacity_m c))"
    by blast
  have a: "a < length (blocks m)"
    using blk by (simp add: block_at_SomeD)
  have scn: "unat (size_m c) \<le> unat (capacity_m c)" using sc by (simp add: word_le_nat_alt)
  let ?cap = "unat (next_capacity (capacity_m c) n)"
  show ?thesis
  proof (cases "ref_m c")
    case True
    have fits: "off + unat (size_m c) \<le> length blk" using cap scn by simp
    from res have ca: "can_alloc m ?cap" and le: "unat (size_m c) \<le> ?cap"
      and m': "m' = m\<lparr>blocks := blocks m
                          @ [Some (take (unat (size_m c)) (drop off blk)
                                   @ replicate (?cap - unat (size_m c)) 0)]\<rparr>"
      and c': "c' = c\<lparr>capacity_m := next_capacity (capacity_m c) n, ref_m := False,
                     buf_m := Ptr (length (blocks m)) 0\<rparr>"
      unfolding reserve_borrowed_ptr[OF True buf blk fits ne] by (auto split: if_splits)
    have 3: "length (blocks m') = Suc (length (blocks m))" by (simp add: m')
    have 4: "max_alloc m' = max_alloc m" by (simp add: m')
    have 5: "\<exists>newblk. block_at m' (length (blocks m)) = Some newblk \<and> length newblk = ?cap"
      using le fits by (simp add: m' block_at_grow)
    have 6: "\<forall>a. a < length (blocks m) \<longrightarrow>
              block_at m' a = (if \<not> ref_m c \<and> (\<exists>off. buf_m c = Ptr a off) then None
                               else block_at m a)"
      using True by (simp add: m' block_at_grow)
    have 7: "\<forall>k. k \<le> unat (size_m c) \<and> k \<le> ?cap \<longrightarrow>
              load m' (Ptr (length (blocks m)) 0) k = load m (buf_m c) k"
      using fits blk le by (auto simp: load_def m' block_at_grow buf min_def)
    show ?thesis using c' ca 3 4 5 6 7 by blast
  next
    case nr: False
    with own have off0: "off = 0" and len: "length blk = unat (capacity_m c)" by simp_all
    from res have nz: "?cap \<noteq> 0" and ca: "can_alloc m ?cap"
      and m': "m' = m\<lparr>blocks := (blocks m)[a := None]
                          @ [Some (take ?cap blk @ replicate (?cap - length blk) 0)]\<rparr>"
      and c': "c' = c\<lparr>capacity_m := next_capacity (capacity_m c) n,
                     buf_m := Ptr (length (blocks m)) 0\<rparr>"
      unfolding reserve_owned_ptr[OF nr buf blk ne] by (auto split: if_splits)
    have 1: "c' = c\<lparr>capacity_m := next_capacity (capacity_m c) n, ref_m := False,
                 buf_m := Ptr (length (blocks m)) 0\<rparr>"
      using nr by (simp add: c')
    have 3: "length (blocks m') = Suc (length (blocks m))" by (simp add: m')
    have 4: "max_alloc m' = max_alloc m" by (simp add: m')
    have 5: "\<exists>newblk. block_at m' (length (blocks m)) = Some newblk \<and> length newblk = ?cap"
      by (simp add: m' block_at_move)
    have 6: "\<forall>b. b < length (blocks m) \<longrightarrow>
              block_at m' b = (if \<not> ref_m c \<and> (\<exists>off. buf_m c = Ptr b off) then None
                               else block_at m b)"
      using nr by (auto simp: m' block_at_move buf)
    have 7: "\<forall>k. k \<le> unat (size_m c) \<and> k \<le> ?cap \<longrightarrow>
              load m' (Ptr (length (blocks m)) 0) k = load m (buf_m c) k"
      using scn len blk by (simp add: load_def m' block_at_move buf off0 min_def)
    show ?thesis using 1 ca 3 4 5 6 7 by blast
  qed
qed

section \<open>Compacting with shrink_to_fit\<close>

lemma reserve_storage_ok:
  assumes "storage_ok m c" "size_m c \<le> capacity_m c" "n \<noteq> capacity_m c"
    "reserve n (m, c) = (None, (m', c'))"
  shows "storage_ok m' c'"
proof -
  note h = reserve_success[OF assms]
  from h obtain newblk where nb: "block_at m' (length (blocks m)) = Some newblk"
    "length newblk = unat (next_capacity (capacity_m c) n)" by blast
  from h have c': "c' = c\<lparr>capacity_m := next_capacity (capacity_m c) n, ref_m := False,
                 buf_m := Ptr (length (blocks m)) 0\<rparr>"
    and ca: "can_alloc m (unat (next_capacity (capacity_m c) n))" by blast+
  show ?thesis
    using nb ca by (simp add: storage_ok_def c' can_alloc_def)
qed

lemma reserve_succeeds:
  assumes ok: "storage_ok m c" and sc: "size_m c \<le> capacity_m c" and ne: "n \<noteq> capacity_m c"
    and nz: "next_capacity (capacity_m c) n \<noteq> 0"
    and ca: "can_alloc m (unat (next_capacity (capacity_m c) n))"
    and le: "size_m c \<le> next_capacity (capacity_m c) n"
  shows "fst (reserve n (m, c)) = None"
proof (cases "buf_m c = Null")
  case True
  with ok have "\<not> ref_m c" by (simp add: storage_ok_def)
  from reserve_owned_null[OF this True ne] ca show ?thesis by simp
next
  case False
  from storage_ok_PtrE[OF ok False] obtain a off blk where buf: "buf_m c = Ptr a off"
    and blk: "block_at m a = Some blk" and cap: "off + unat (capacity_m c) \<le> length blk"
    by blast
  have scn: "unat (size_m c) \<le> unat (capacity_m c)" using sc by (simp add: word_le_nat_alt)
  have nz': "unat (next_capacity (capacity_m c) n) \<noteq> 0" using nz by (simp add: unat_eq_0)
  show ?thesis
  proof (cases "ref_m c")
    case True
    have fits: "off + unat (size_m c) \<le> length blk" using cap scn by simp
    from reserve_borrowed_ptr[OF True buf blk fits ne] ca le show ?thesis
      by (simp add: word_le_nat_alt)
  next
    case nr: False
    from reserve_owned_ptr[OF nr buf blk ne] ca nz' show ?thesis by simp
  qed
qed

lemma valid_storage_ok: "valid m c \<Longrightarrow> storage_ok m c"
  by (simp add: valid_def)

lemma reserve_to_size:
  assumes v: "valid m c" and nz: "size_m c \<noteq> 0"
    and res: "reserve (size_m c) (m, c) = (None, (m', c'))"
  shows "capacity_m c' = size_m c \<and> size_m c' = size_m c \<and>
         shrink_counter_m c' = shrink_counter_m c \<and> \<not> (ref_m c' \<and> capacity_m c \<noteq> size_m c) \<and>
         contents m' c' = contents m c \<and> valid m' c'"
proof (cases "size_m c = capacity_m c")
  case True
  with res have "m' = m" "c' = c" by (simp_all add: reserve_same)
  with True v show ?thesis by simp
next
  case False
  from v have ok: "storage_ok m c" and sc: "size_m c \<le> capacity_m c" by (simp_all add: valid_def)
  from sc False have lt: "size_m c < capacity_m c" by simp
  then have nc: "next_capacity (capacity_m c) (size_m c) = size_m c"
    by (rule next_capacity_shrink)
  note h = reserve_success[OF ok sc False res, unfolded nc]
  from h have c': "c' = c\<lparr>capacity_m := size_m c, ref_m := False,
                 buf_m := Ptr (length (blocks m)) 0\<rparr>" by blast
  from h have "load m' (Ptr (length (blocks m)) 0) (unat (size_m c)) = load m (buf_m c) (unat (size_m c))"
    by blast
  then have ct: "contents m' c' = contents m c"
    by (simp add: contents_def c' begin_of_def size_of_def)
  have "storage_ok m' c'" by (rule reserve_storage_ok[OF ok sc False res])
  then have "valid m' c'"
    using v nz by (simp add: valid_def c')
  with ct False show ?thesis by (simp add: c')
qed

lemma reserve_to_size_succeeds:
  assumes v: "valid m c" and nz: "size_m c \<noteq> 0" and ca: "can_alloc m (unat (size_m c))"
  shows "fst (reserve (size_m c) (m, c)) = None"
proof (cases "size_m c = capacity_m c")
  case True
  then show ?thesis by (simp add: reserve_same)
next
  case False
  from v have ok: "storage_ok m c" and sc: "size_m c \<le> capacity_m c" by (simp_all add: valid_def)
  from sc False have "size_m c < capacity_m c" by simp
  then have nc: "next_capacity (capacity_m c) (size_m c) = size_m c"
    by (rule next_capacity_shrink)
  show ?thesis
    by (rule reserve_succeeds[OF ok sc False]) (use nc nz ca in simp_all)
qed

lemma shrink_to_fit_eq:
  "shrink_to_fit (m, c) =
     (if size_m c > 0
      then (case reserve (size_m c) (m, c) of
              (Some e, s') \<Rightarrow> (Some e, s')
            | (None, (m', c')) \<Rightarrow> (None, (m', c'\<lparr>shrink_counter_m := 0\<rparr>)))
      else (None, (m, c\<lparr>shrink_counter_m := 0\<rparr>)))"
  by (simp add: shrink_to_fit_def)

lemma storage_ok_counter: "storage_ok m (c\<lparr>shrink_counter_m := k\<rparr>) = storage_ok m c"
  by (cases "buf_m c") (auto simp: storage_ok_def split: option.splits)

lemma valid_counter_reset: "valid m c \<Longrightarrow> valid m (c\<lparr>shrink_counter_m := 0\<rparr>)"
  by (simp add: valid_def storage_ok_counter DEFAULT_SHRINK_TRIGGER_COUNT_def)

lemma contents_counter: "contents m (c\<lparr>shrink_counter_m := k\<rparr>) = contents m c"
  by (simp add: contents_def begin_of_def size_of_def)

text \<open>
  Claim C7. On a well-formed container \<^verbatim>\<open>shrink_to_fit()\<close>, when it returns, leaves the
  capacity equal to the size, the size and the bytes as they were and the trigger
  counter at 0, whatever the counter was; it returns whenever the allocator can give a
  block of the size. A container of size 0 holds no memory and has capacity 0 before
  and after.
\<close>

theorem shrink_to_fit_compacts:
  assumes "valid m c"
  shows "(\<forall>m' c'. shrink_to_fit (m, c) = (None, (m', c')) \<longrightarrow>
            capacity_m c' = size_m c \<and> size_m c' = size_m c \<and> shrink_counter_m c' = 0 \<and>
            contents m' c' = contents m c \<and> valid m' c' \<and>
            (size_m c = 0 \<longrightarrow> buf_m c' = Null \<and> capacity_m c' = 0 \<and> m' = m)) \<and>
         (can_alloc m (unat (size_m c)) \<longrightarrow> fst (shrink_to_fit (m, c)) = None) \<and>
         (\<forall>k. fst (shrink_to_fit (m, c\<lparr>shrink_counter_m := k\<rparr>)) = fst (shrink_to_fit (m, c)) \<and>
              (fst (shrink_to_fit (m, c)) = None \<longrightarrow>
               shrink_to_fit (m, c\<lparr>shrink_counter_m := k\<rparr>) = shrink_to_fit (m, c)))"
proof (cases "size_m c = 0")
  case True
  from assms True have "buf_m c = Null" "capacity_m c = 0"
    by (auto simp: valid_def storage_ok_def)
  then show ?thesis
    using True assms valid_counter_reset[OF assms]
    by (auto simp: shrink_to_fit_eq contents_counter)
next
  case False
  then have pos: "size_m c > 0" by (simp add: word_greater_zero_iff)
  have A: "capacity_m c' = size_m c \<and> size_m c' = size_m c \<and> shrink_counter_m c' = 0 \<and>
            contents m' c' = contents m c \<and> valid m' c' \<and>
            (size_m c = 0 \<longrightarrow> buf_m c' = Null \<and> capacity_m c' = 0 \<and> m' = m)"
    if "shrink_to_fit (m, c) = (None, (m', c'))" for m' c'
  proof -
    from that pos obtain c1 where r: "reserve (size_m c) (m, c) = (None, (m', c1))"
      and c': "c' = c1\<lparr>shrink_counter_m := 0\<rparr>"
      by (auto simp: shrink_to_fit_eq split: prod.splits option.splits)
    from reserve_to_size[OF assms False r] valid_counter_reset[of m' c1] False
    show ?thesis by (simp add: c' contents_counter)
  qed
  have B: "fst (shrink_to_fit (m, c)) = None" if "can_alloc m (unat (size_m c))"
    using reserve_to_size_succeeds[OF assms False that] pos
    by (auto simp: shrink_to_fit_eq split: prod.splits option.splits)
  have R: "reserve n (m, c\<lparr>shrink_counter_m := k\<rparr>) =
      (fst (reserve n (m, c)), fst (snd (reserve n (m, c))),
       (snd (snd (reserve n (m, c))))\<lparr>shrink_counter_m := k\<rparr>)" for n k
    by (cases "n = capacity_m c"; cases "ref_m c")
      (auto simp: reserve_same[of "c\<lparr>shrink_counter_m := k\<rparr>", simplified] reserve_same
        reserve_owned reserve_borrowed split: prod.splits pointer.splits option.splits)
  have C: "fst (shrink_to_fit (m, c\<lparr>shrink_counter_m := k\<rparr>)) = fst (shrink_to_fit (m, c)) \<and>
              (fst (shrink_to_fit (m, c)) = None \<longrightarrow>
               shrink_to_fit (m, c\<lparr>shrink_counter_m := k\<rparr>) = shrink_to_fit (m, c))" for k
    using pos by (auto simp: shrink_to_fit_eq R split: prod.splits option.splits)
  show ?thesis using A B C by blast
qed

section \<open>The shrink heuristic\<close>

lemma valid_roomy: "valid roomy_memory roomy_buffer"
  by (simp add: valid_def storage_ok_def roomy_memory_def roomy_buffer_def block_at_def
      PTRDIFF_MAX_def DEFAULT_SHRINK_TRIGGER_COUNT_def)

lemma valid_new: "valid m SimpleBufferT_new"
  by (simp add: valid_def storage_ok_def SimpleBufferT_new_def DEFAULT_SHRINK_TRIGGER_COUNT_def)

lemma shrink_to_fit_roomy:
  "shrink_to_fit (roomy_memory, roomy_buffer\<lparr>shrink_counter_m := k\<rparr>) =
     (None, (roomy_memory\<lparr>blocks := [None, Some [1, 2, 3, 4]]\<rparr>,
             \<lparr>buf_m = Ptr 1 0, size_m = 4, capacity_m = 4, shrink_counter_m = 0, ref_m = False\<rparr>))"
  by (simp add: shrink_to_fit_eq reserve_def reallocate_def block_at_def Let_def
      roomy_memory_def roomy_buffer_def PTRDIFF_MAX_def)

theorem shrink_to_fit_compacts_witness:
  "valid roomy_memory (roomy_buffer\<lparr>shrink_counter_m := 2\<rparr>) \<and>
   can_alloc roomy_memory (unat (size_m (roomy_buffer\<lparr>shrink_counter_m := 2\<rparr>))) \<and>
   shrink_to_fit (roomy_memory, roomy_buffer\<lparr>shrink_counter_m := 2\<rparr>) =
     (None, (roomy_memory\<lparr>blocks := [None, Some [1, 2, 3, 4]]\<rparr>,
             \<lparr>buf_m = Ptr 1 0, size_m = 4, capacity_m = 4, shrink_counter_m = 0, ref_m = False\<rparr>)) \<and>
   capacity_m roomy_buffer = 8 \<and>
   contents (roomy_memory\<lparr>blocks := [None, Some [1, 2, 3, 4]]\<rparr>)
     \<lparr>buf_m = Ptr 1 0, size_m = 4, capacity_m = 4, shrink_counter_m = 0, ref_m = False\<rparr>
     = Some [1, 2, 3, 4] \<and>
   valid roomy_memory SimpleBufferT_new \<and> size_m SimpleBufferT_new = 0 \<and>
   shrink_to_fit (roomy_memory, SimpleBufferT_new) = (None, (roomy_memory, SimpleBufferT_new)) \<and>
   buf_m SimpleBufferT_new = Null \<and> capacity_m SimpleBufferT_new = 0"
proof -
  let ?c = "roomy_buffer\<lparr>shrink_counter_m := 2\<rparr>"
  have v: "valid roomy_memory ?c"
    by (simp add: valid_def storage_ok_def roomy_memory_def roomy_buffer_def block_at_def
      PTRDIFF_MAX_def DEFAULT_SHRINK_TRIGGER_COUNT_def)
  have ca: "can_alloc roomy_memory (unat (size_m ?c))"
    by (simp add: can_alloc_def roomy_memory_def roomy_buffer_def PTRDIFF_MAX_def)
  note h = shrink_to_fit_compacts[OF v]
  note e = shrink_to_fit_roomy[of 2]
  have c0: "contents roomy_memory ?c = Some [1, 2, 3, 4]"
    by (simp add: contents_def load_def begin_of_def size_of_def roomy_memory_def
        roomy_buffer_def block_at_def)
  from h e c0 have ct: "contents (roomy_memory\<lparr>blocks := [None, Some [1, 2, 3, 4]]\<rparr>)
     \<lparr>buf_m = Ptr 1 0, size_m = 4, capacity_m = 4, shrink_counter_m = 0, ref_m = False\<rparr>
     = Some [1, 2, 3, 4]"
    by metis
  have s0: "size_m SimpleBufferT_new = 0" "buf_m SimpleBufferT_new = Null"
    "capacity_m SimpleBufferT_new = 0"
    by (simp_all add: SimpleBufferT_new_def)
  have e0: "shrink_to_fit (roomy_memory, SimpleBufferT_new) = (None, (roomy_memory, SimpleBufferT_new))"
    by (simp add: shrink_to_fit_eq SimpleBufferT_new_def)
  have c8: "capacity_m roomy_buffer = 8" by (simp add: roomy_buffer_def)
  show ?thesis
    using v ca e c8 ct valid_new[of roomy_memory] s0 e0 by simp
qed

lemma reserve_counter_update:
  "reserve n (m, c\<lparr>shrink_counter_m := k\<rparr>) =
      (fst (reserve n (m, c)), fst (snd (reserve n (m, c))),
       (snd (snd (reserve n (m, c))))\<lparr>shrink_counter_m := k\<rparr>)"
  by (cases "n = capacity_m c"; cases "ref_m c")
    (auto simp: reserve_same[of "c\<lparr>shrink_counter_m := k\<rparr>", simplified] reserve_same
      reserve_owned reserve_borrowed split: prod.splits pointer.splits option.splits)

lemma shrink_guard:
  assumes "valid m c" "size_m c \<noteq> 0"
  shows "size_m c > 0 \<and> size_m c < 2 * capacity_m c"
proof -
  from assms(1) have sc: "unat (size_m c) \<le> unat (capacity_m c)"
    by (simp add: valid_def word_le_nat_alt)
  have cb: "unat (capacity_m c) \<le> PTRDIFF_MAX"
    using assms(1) storage_ok_capacity_bound[of m c] by (simp add: valid_def)
  then have "unat (capacity_m c) + unat (capacity_m c) < 2 ^ 64"
    by (simp add: PTRDIFF_MAX_def)
  then have "unat (capacity_m c + capacity_m c) = unat (capacity_m c) + unat (capacity_m c)"
    by (rule unat_add_no_wrap)
  then have d: "unat (2 * capacity_m c) = unat (capacity_m c) + unat (capacity_m c)"
    by (simp only: mult_2)
  have pos: "0 < unat (size_m c)" using assms(2) by (simp add: unat_gt_0)
  then have "size_m c > 0" by (simp add: word_less_nat_alt)
  moreover have "size_m c < 2 * capacity_m c"
    using sc pos by (simp add: word_less_nat_alt d)
  ultimately show ?thesis by simp
qed

lemma shrink_eq:
  assumes "size_m c > 0 \<and> size_m c < 2 * capacity_m c"
  shows "shrink (m, c) =
     (if shrink_counter_m c + 1 > DEFAULT_SHRINK_TRIGGER_COUNT
      then (case reserve (size_m c) (m, c) of
              (Some e, (m', c')) \<Rightarrow> (Some e, (m', c'\<lparr>shrink_counter_m := shrink_counter_m c + 1\<rparr>))
            | (None, (m', c')) \<Rightarrow> (None, (m', c'\<lparr>shrink_counter_m := 0\<rparr>)))
      else (None, (m, c\<lparr>shrink_counter_m := shrink_counter_m c + 1\<rparr>)))"
  using assms
  by (auto simp: shrink_def Let_def reserve_counter_update split: prod.splits option.splits)

text \<open>
  Claim C10. On a well-formed container that is not empty the guard of \<^verbatim>\<open>shrink()\<close>,
  \<open>size > 0 && size < 2 * capacity\<close>, is true: a call never takes the branch that resets
  the counter. With the counter below 2 the call only counts; with the counter at 2 it
  reserves the size and, when that returns, the capacity is the size, the bytes are
  kept and the counter is 0 again. So from a counter of 0 the first two calls count and
  the third compacts, whatever the ratio of size to capacity.
\<close>

theorem shrink_guard_always_true:
  assumes "valid m c" and "size_m c \<noteq> 0"
  shows "(size_m c > 0 \<and> size_m c < 2 * capacity_m c) \<and>
         (shrink_counter_m c < 2 \<longrightarrow>
            shrink (m, c) = (None, (m, c\<lparr>shrink_counter_m := shrink_counter_m c + 1\<rparr>))) \<and>
         (shrink_counter_m c = 2 \<longrightarrow>
            (\<forall>m' c'. shrink (m, c) = (None, (m', c')) \<longrightarrow>
               capacity_m c' = size_m c \<and> size_m c' = size_m c \<and> shrink_counter_m c' = 0 \<and>
               contents m' c' = contents m c \<and> valid m' c') \<and>
            (can_alloc m (unat (size_m c)) \<longrightarrow> fst (shrink (m, c)) = None)) \<and>
         (shrink_counter_m c = 0 \<longrightarrow>
            shrink (m, c) = (None, (m, c\<lparr>shrink_counter_m := 1\<rparr>)) \<and>
            shrink (m, c\<lparr>shrink_counter_m := 1\<rparr>) = (None, (m, c\<lparr>shrink_counter_m := 2\<rparr>)) \<and>
            (\<forall>m' c'. shrink (m, c\<lparr>shrink_counter_m := 2\<rparr>) = (None, (m', c')) \<longrightarrow>
               capacity_m c' = size_m c \<and> size_m c' = size_m c \<and> shrink_counter_m c' = 0 \<and>
               contents m' c' = contents m c \<and> valid m' c') \<and>
            (can_alloc m (unat (size_m c)) \<longrightarrow>
               fst (shrink (m, c\<lparr>shrink_counter_m := 2\<rparr>)) = None))"
proof -
  note g = shrink_guard[OF assms]
  have g': "size_m (c\<lparr>shrink_counter_m := k\<rparr>) > 0 \<and>
            size_m (c\<lparr>shrink_counter_m := k\<rparr>) < 2 * capacity_m (c\<lparr>shrink_counter_m := k\<rparr>)" for k
    using g by simp
  have count: "shrink (m, c\<lparr>shrink_counter_m := k\<rparr>) = (None, (m, c\<lparr>shrink_counter_m := k + 1\<rparr>))"
    if "k < 2" for k
    using that by (simp add: shrink_eq[OF g'] DEFAULT_SHRINK_TRIGGER_COUNT_def)
  have trig: "shrink (m, c\<lparr>shrink_counter_m := 2\<rparr>) =
      (case reserve (size_m c) (m, c) of
         (Some e, (m', c')) \<Rightarrow> (Some e, (m', c'\<lparr>shrink_counter_m := 3\<rparr>))
       | (None, (m', c')) \<Rightarrow> (None, (m', c'\<lparr>shrink_counter_m := 0\<rparr>)))"
    by (simp add: shrink_eq[OF g'] reserve_counter_update DEFAULT_SHRINK_TRIGGER_COUNT_def
        split: prod.splits option.splits)
  have third: "capacity_m c' = size_m c \<and> size_m c' = size_m c \<and> shrink_counter_m c' = 0 \<and>
               contents m' c' = contents m c \<and> valid m' c'"
    if "shrink (m, c\<lparr>shrink_counter_m := 2\<rparr>) = (None, (m', c'))" for m' c'
  proof -
    obtain eo m1 c1 where r0: "reserve (size_m c) (m, c) = (eo, (m1, c1))"
      by (metis prod.exhaust)
    with that have "eo = None" "m' = m1" and c': "c' = c1\<lparr>shrink_counter_m := 0\<rparr>"
      by (auto simp: trig split: option.splits)
    with r0 have r: "reserve (size_m c) (m, c) = (None, (m', c1))" by simp
    from reserve_to_size[OF assms r] valid_counter_reset[of m' c1]
    show ?thesis by (simp add: c' contents_counter)
  qed
  have third_ok: "fst (shrink (m, c\<lparr>shrink_counter_m := 2\<rparr>)) = None"
    if "can_alloc m (unat (size_m c))"
    using reserve_to_size_succeeds[OF assms that]
    by (auto simp: trig split: prod.splits option.splits)
  have self: "c\<lparr>shrink_counter_m := shrink_counter_m c\<rparr> = c" by simp
  have A: "shrink_counter_m c < 2 \<longrightarrow>
            shrink (m, c) = (None, (m, c\<lparr>shrink_counter_m := shrink_counter_m c + 1\<rparr>))"
    using count[of "shrink_counter_m c"] by (simp add: self)
  have B: "shrink_counter_m c = 2 \<longrightarrow>
            (\<forall>m' c'. shrink (m, c) = (None, (m', c')) \<longrightarrow>
               capacity_m c' = size_m c \<and> size_m c' = size_m c \<and> shrink_counter_m c' = 0 \<and>
               contents m' c' = contents m c \<and> valid m' c') \<and>
            (can_alloc m (unat (size_m c)) \<longrightarrow> fst (shrink (m, c)) = None)"
    using third third_ok self by metis
  have C: "shrink_counter_m c = 0 \<longrightarrow>
            shrink (m, c) = (None, (m, c\<lparr>shrink_counter_m := 1\<rparr>)) \<and>
            shrink (m, c\<lparr>shrink_counter_m := 1\<rparr>) = (None, (m, c\<lparr>shrink_counter_m := 2\<rparr>))"
  proof
    assume z: "shrink_counter_m c = 0"
    then have "c\<lparr>shrink_counter_m := 0\<rparr> = c" by (metis self)
    with count[of 0] count[of 1]
    show "shrink (m, c) = (None, (m, c\<lparr>shrink_counter_m := 1\<rparr>)) \<and>
            shrink (m, c\<lparr>shrink_counter_m := 1\<rparr>) = (None, (m, c\<lparr>shrink_counter_m := 2\<rparr>))"
      by simp
  qed
  show ?thesis
    using g A B C third third_ok by blast
qed

lemma shrink_roomy_third:
  "shrink (roomy_memory, roomy_buffer\<lparr>shrink_counter_m := 2\<rparr>) =
     (None, (roomy_memory\<lparr>blocks := [None, Some [1, 2, 3, 4]]\<rparr>,
             \<lparr>buf_m = Ptr 1 0, size_m = 4, capacity_m = 4, shrink_counter_m = 0, ref_m = False\<rparr>))"
  by (simp add: shrink_def reserve_def reallocate_def block_at_def Let_def
      roomy_memory_def roomy_buffer_def PTRDIFF_MAX_def DEFAULT_SHRINK_TRIGGER_COUNT_def)

theorem shrink_guard_always_true_witness:
  "valid roomy_memory roomy_buffer \<and> size_m roomy_buffer \<noteq> 0 \<and>
   shrink_counter_m roomy_buffer = 0 \<and> capacity_m roomy_buffer = 8 \<and>
   shrink (roomy_memory, roomy_buffer)
     = (None, (roomy_memory, roomy_buffer\<lparr>shrink_counter_m := 1\<rparr>)) \<and>
   shrink (roomy_memory, roomy_buffer\<lparr>shrink_counter_m := 1\<rparr>)
     = (None, (roomy_memory, roomy_buffer\<lparr>shrink_counter_m := 2\<rparr>)) \<and>
   can_alloc roomy_memory (unat (size_m roomy_buffer)) \<and>
   shrink (roomy_memory, roomy_buffer\<lparr>shrink_counter_m := 2\<rparr>) =
     (None, (roomy_memory\<lparr>blocks := [None, Some [1, 2, 3, 4]]\<rparr>,
             \<lparr>buf_m = Ptr 1 0, size_m = 4, capacity_m = 4, shrink_counter_m = 0, ref_m = False\<rparr>)) \<and>
   valid roomy_memory (roomy_buffer\<lparr>shrink_counter_m := 2\<rparr>) \<and>
   shrink_counter_m (roomy_buffer\<lparr>shrink_counter_m := 2\<rparr>) = 2 \<and>
   fst (shrink (roomy_memory, roomy_buffer\<lparr>shrink_counter_m := 2\<rparr>)) = None"
proof -
  have nz: "size_m roomy_buffer \<noteq> 0" and z: "shrink_counter_m roomy_buffer = 0"
    and c8: "capacity_m roomy_buffer = 8"
    by (simp_all add: roomy_buffer_def)
  have ca: "can_alloc roomy_memory (unat (size_m roomy_buffer))"
    by (simp add: can_alloc_def roomy_memory_def roomy_buffer_def PTRDIFF_MAX_def)
  let ?c2 = "roomy_buffer\<lparr>shrink_counter_m := 2\<rparr>"
  have v2: "valid roomy_memory ?c2"
    by (simp add: valid_def storage_ok_def roomy_memory_def roomy_buffer_def block_at_def
      PTRDIFF_MAX_def DEFAULT_SHRINK_TRIGGER_COUNT_def)
  have nz2: "size_m ?c2 \<noteq> 0" and t2: "shrink_counter_m ?c2 = 2"
    by (simp_all add: roomy_buffer_def)
  have ca2: "can_alloc roomy_memory (unat (size_m ?c2))" using ca by simp
  note h = shrink_guard_always_true[OF valid_roomy nz]
  note h2 = shrink_guard_always_true[OF v2 nz2]
  from h z have s1: "shrink (roomy_memory, roomy_buffer)
     = (None, (roomy_memory, roomy_buffer\<lparr>shrink_counter_m := 1\<rparr>))"
    and s2: "shrink (roomy_memory, roomy_buffer\<lparr>shrink_counter_m := 1\<rparr>)
     = (None, (roomy_memory, roomy_buffer\<lparr>shrink_counter_m := 2\<rparr>))"
    by blast+
  from h2 t2 ca2 have s3: "fst (shrink (roomy_memory, ?c2)) = None" by blast
  show ?thesis
    using valid_roomy nz z c8 s1 s2 ca shrink_roomy_third v2 t2 s3 by simp
qed

section \<open>Ownership never reverts\<close>

lemma write_val_container: "snd (snd (write_val host e v offset s)) = snd s"
  by (cases s) (auto simp: write_val_def split: sum.splits)

lemma write_8bit_container: "snd (snd (write_8bit v offset s)) = snd s"
  by (cases s) (auto simp: write_8bit_def split: option.splits)

lemma write_bytes_container: "snd (snd (write_bytes buf n offset s)) = snd s"
  by (cases s) (auto simp: write_bytes_def split: option.splits)

lemma fill_container: "snd (snd (fill v offset count s)) = snd s"
  by (cases s) (auto simp: fill_def Let_def split: option.splits)

lemma clear_not_ref: "\<not> ref_m (snd (clear s))"
  by (cases s) (simp add: clear_def Let_def)

lemma resize_not_ref: "\<not> ref_m (snd s) \<Longrightarrow> \<not> ref_m (snd (snd (resize n s)))"
  using reserve_not_ref[of "snd s" n "fst s"]
  by (cases s) (auto simp: resize_def clear_def Let_def split: prod.splits option.splits)

lemma shrink_not_ref: "\<not> ref_m (snd s) \<Longrightarrow> \<not> ref_m (snd (snd (shrink s)))"
proof (cases s)
  case (Pair m c)
  assume "\<not> ref_m (snd s)"
  with Pair have nr: "\<not> ref_m c" by simp
  have "\<not> ref_m (snd (snd (reserve (size_m c) (m, c))))"
    using nr by (rule reserve_not_ref)
  then show ?thesis
    using nr
    by (simp add: Pair shrink_def Let_def reserve_counter_update split: option.splits)
qed

lemma EnsureWritableBytes_not_ref:
  "\<not> ref_m (snd s) \<Longrightarrow> \<not> ref_m (snd (snd (EnsureWritableBytes offset n s)))"
  using resize_not_ref by (simp add: EnsureWritableBytes_def)

lemma append_not_ref: "\<not> ref_m (snd s) \<Longrightarrow> \<not> ref_m (snd (snd (append host e v s)))"
  using EnsureWritableBytes_not_ref[of s "size_of (snd s)" "of_nat (sizeof (type_of v))"]
  by (auto simp: append_def Let_def write_val_container split: prod.splits option.splits)

lemma append_8bit_not_ref: "\<not> ref_m (snd s) \<Longrightarrow> \<not> ref_m (snd (snd (append_8bit v s)))"
  using EnsureWritableBytes_not_ref[of s "size_of (snd s)" 1]
  by (auto simp: append_8bit_def Let_def split: prod.splits option.splits)

lemma append_bytes_not_ref: "\<not> ref_m (snd s) \<Longrightarrow> \<not> ref_m (snd (snd (append_bytes buf n s)))"
  using EnsureWritableBytes_not_ref[of s "size_of (snd s)" n]
  by (auto simp: append_bytes_def Let_def split: prod.splits option.splits)

lemma apply_op_not_ref:
  "\<not> ref_m (snd s) \<Longrightarrow> \<not> ref_m (snd (snd (apply_op host op s)))"
  by (cases op)
    (simp_all add: write_val_container write_8bit_container write_bytes_container fill_container
      clear_not_ref resize_not_ref shrink_not_ref append_not_ref append_8bit_not_ref
      append_bytes_not_ref)

lemma step_not_ref: "\<not> ref_m (snd s) \<Longrightarrow> \<not> ref_m (snd (step host r ev s))"
  by (cases ev) (auto simp: apply_op_not_ref split: option.splits)

lemma run_not_ref: "\<not> ref_m (snd s) \<Longrightarrow> \<not> ref_m (snd (run host r evs s))"
  unfolding run_def
  by (induction evs arbitrary: s) (simp_all add: step_not_ref)

section \<open>The contract of reserve\<close>

text \<open>
  Claim C3. \<^verbatim>\<open>reserve(n)\<close> on a container whose storage is in order and whose size is
  within its capacity. If \<open>n > capacity\<close> and the call returns, the new capacity is
  \<open>max(n, 2 * capacity, 32)\<close> and the bytes up to the size are the same; if the container
  was borrowed, it now owns a block that did not exist before, the caller's memory is as
  it was, and no later member function or write of the caller makes it borrowed again.
  The call returns whenever the allocator can give that many bytes. If \<open>n < capacity\<close> the
  capacity is \<open>n\<close>. If \<open>n = capacity\<close> nothing changes.
\<close>

theorem reserve_contract:
  assumes "storage_ok m c" and "size_m c \<le> capacity_m c"
  shows "(n > capacity_m c \<longrightarrow>
            (\<forall>m' c'. reserve n (m, c) = (None, (m', c')) \<longrightarrow>
               unat (capacity_m c') = max (unat n) (max (2 * unat (capacity_m c)) 32) \<and>
               size_m c' = size_m c \<and> contents m' c' = contents m c \<and>
               storage_ok m' c' \<and> \<not> ref_m c' \<and>
               (\<forall>host r evs. \<not> ref_m (snd (run host r evs (m', c')))) \<and>
               (ref_m c \<longrightarrow>
                  buf_m c' = Ptr (length (blocks m)) 0 \<and>
                  block_at m (length (blocks m)) = None \<and>
                  (\<forall>a. a < length (blocks m) \<longrightarrow> block_at m' a = block_at m a))) \<and>
            (can_alloc m (max (unat n) (max (2 * unat (capacity_m c)) 32)) \<longrightarrow>
               fst (reserve n (m, c)) = None)) \<and>
         (n < capacity_m c \<longrightarrow> capacity_m (snd (snd (reserve n (m, c)))) = n) \<and>
         (n = capacity_m c \<longrightarrow> reserve n (m, c) = (None, (m, c)))"
proof (intro conjI impI allI)
  fix m' c' assume gt: "n > capacity_m c" and res: "reserve n (m, c) = (None, (m', c'))"
  from gt have ne: "n \<noteq> capacity_m c" by auto
  have cb: "unat (capacity_m c) \<le> PTRDIFF_MAX"
    using assms(1) by (rule storage_ok_capacity_bound)
  note nc = next_capacity_grow[OF cb gt]
  note h = reserve_success[OF assms ne res]
  from h have c': "c' = c\<lparr>capacity_m := next_capacity (capacity_m c) n, ref_m := False,
                 buf_m := Ptr (length (blocks m)) 0\<rparr>" by blast
  show "unat (capacity_m c') = max (unat n) (max (2 * unat (capacity_m c)) 32)"
    by (simp add: c' nc)
  show "size_m c' = size_m c" by (simp add: c')
  have le: "unat (size_m c) \<le> unat (next_capacity (capacity_m c) n)"
    using assms(2) gt by (simp add: nc word_le_nat_alt word_less_nat_alt)
  from h le have "load m' (Ptr (length (blocks m)) 0) (unat (size_m c)) = load m (buf_m c) (unat (size_m c))"
    by blast
  then show "contents m' c' = contents m c"
    by (simp add: contents_def c' begin_of_def size_of_def)
  show "storage_ok m' c'" by (rule reserve_storage_ok[OF assms ne res])
  show nr: "\<not> ref_m c'" by (simp add: c')
  show "\<not> ref_m (snd (run host r evs (m', c')))" for host r evs
    using nr run_not_ref[of "(m', c')" host r evs] by simp
  show "buf_m c' = Ptr (length (blocks m)) 0" by (simp add: c')
  show "block_at m (length (blocks m)) = None" by (simp add: block_at_def)
  show "block_at m' a = block_at m a" if "a < length (blocks m)" "ref_m c" for a
    using h that by simp
next
  assume gt: "n > capacity_m c"
    and ca: "can_alloc m (max (unat n) (max (2 * unat (capacity_m c)) 32))"
  from gt have ne: "n \<noteq> capacity_m c" by auto
  have cb: "unat (capacity_m c) \<le> PTRDIFF_MAX"
    using assms(1) by (rule storage_ok_capacity_bound)
  note nc = next_capacity_grow[OF cb gt]
  have nz: "next_capacity (capacity_m c) n \<noteq> 0"
  proof
    assume "next_capacity (capacity_m c) n = 0"
    then have "unat (next_capacity (capacity_m c) n) = 0" by simp
    with nc show False by simp
  qed
  have le: "size_m c \<le> next_capacity (capacity_m c) n"
    using assms(2) gt by (simp add: nc word_le_nat_alt word_less_nat_alt)
  show "fst (reserve n (m, c)) = None"
    by (rule reserve_succeeds[OF assms ne nz _ le]) (use ca nc in simp)
next
  assume lt: "n < capacity_m c"
  then have "n \<noteq> capacity_m c" by auto
  then show "capacity_m (snd (snd (reserve n (m, c)))) = n"
    using lt by (simp add: reserve_capacity next_capacity_shrink)
next
  assume "n = capacity_m c"
  then show "reserve n (m, c) = (None, (m, c))" by (simp add: reserve_same)
qed

lemma borrowed_buffer_eq:
  "borrowed_buffer =
     \<lparr>buf_m = Ptr 0 0, size_m = 3, capacity_m = 3, shrink_counter_m = 0, ref_m = True\<rparr>"
  by (simp add: borrowed_buffer_def BufferT_ref_def SimpleBufferT_ref_def SimpleBufferT_new_def
      move_assign_def empty_of_def Let_def)

lemma storage_ok_borrowed: "storage_ok caller_memory borrowed_buffer"
  by (simp add: storage_ok_def borrowed_buffer_eq caller_memory_def block_at_def PTRDIFF_MAX_def)

lemma reserve_borrowed_example:
  "reserve 4 (caller_memory, borrowed_buffer) =
     (None, (caller_memory\<lparr>blocks := [Some [1, 2, 3], Some ([1, 2, 3] @ replicate 29 0)]\<rparr>,
             \<lparr>buf_m = Ptr 1 0, size_m = 3, capacity_m = 32, shrink_counter_m = 0, ref_m = False\<rparr>))"
proof -
  have nc: "next_capacity 3 4 = (32 :: size_t)"
    by (simp add: next_capacity_def DEFAULT_MINI_SIZE_def)
  have b: "block_at caller_memory 0 = Some [1, 2, 3]"
    by (simp add: caller_memory_def block_at_def)
  have "reserve 4 (caller_memory, borrowed_buffer) =
     (None, (caller_memory\<lparr>blocks := blocks caller_memory
                @ [Some (take (unat (3 :: size_t)) (drop 0 [1, 2, 3])
                         @ replicate (unat (32 :: size_t) - unat (3 :: size_t)) 0)]\<rparr>,
             borrowed_buffer\<lparr>capacity_m := 32, ref_m := False,
                              buf_m := Ptr (length (blocks caller_memory)) 0\<rparr>))"
    using reserve_borrowed_ptr[of borrowed_buffer 0 0 caller_memory "[1, 2, 3]" 4] b
    by (simp add: borrowed_buffer_eq nc can_alloc_def caller_memory_def PTRDIFF_MAX_def)
  then show ?thesis
    by (simp add: borrowed_buffer_eq caller_memory_def)
qed

theorem reserve_contract_witness:
  "storage_ok caller_memory borrowed_buffer \<and>
   size_m borrowed_buffer \<le> capacity_m borrowed_buffer \<and>
   ref_m borrowed_buffer \<and> 4 > capacity_m borrowed_buffer \<and>
   can_alloc caller_memory (max (unat (4 :: size_t)) (max (2 * unat (capacity_m borrowed_buffer)) 32)) \<and>
   reserve 4 (caller_memory, borrowed_buffer) =
     (None, (caller_memory\<lparr>blocks := [Some [1, 2, 3], Some ([1, 2, 3] @ replicate 29 0)]\<rparr>,
             \<lparr>buf_m = Ptr 1 0, size_m = 3, capacity_m = 32, shrink_counter_m = 0, ref_m = False\<rparr>)) \<and>
   contents caller_memory borrowed_buffer = Some [1, 2, 3] \<and>
   contents (caller_memory\<lparr>blocks := [Some [1, 2, 3], Some ([1, 2, 3] @ replicate 29 0)]\<rparr>)
     \<lparr>buf_m = Ptr 1 0, size_m = 3, capacity_m = 32, shrink_counter_m = 0, ref_m = False\<rparr>
     = Some [1, 2, 3] \<and>
   (0 :: nat) < length (blocks caller_memory) \<and>
   block_at (caller_memory\<lparr>blocks := [Some [1, 2, 3], Some ([1, 2, 3] @ replicate 29 0)]\<rparr>) 0
     = block_at caller_memory 0 \<and>
   storage_ok roomy_memory roomy_buffer \<and> size_m roomy_buffer \<le> capacity_m roomy_buffer \<and>
   4 < capacity_m roomy_buffer \<and>
   capacity_m (snd (snd (reserve 4 (roomy_memory, roomy_buffer)))) = 4 \<and>
   8 = capacity_m roomy_buffer \<and>
   reserve 8 (roomy_memory, roomy_buffer) = (None, (roomy_memory, roomy_buffer))"
proof -
  have sc: "size_m borrowed_buffer \<le> capacity_m borrowed_buffer"
    and rf: "ref_m borrowed_buffer" and gt: "4 > capacity_m borrowed_buffer"
    by (simp_all add: borrowed_buffer_eq)
  have ca: "can_alloc caller_memory
      (max (unat (4 :: size_t)) (max (2 * unat (capacity_m borrowed_buffer)) 32))"
    by (simp add: can_alloc_def caller_memory_def borrowed_buffer_eq PTRDIFF_MAX_def)
  have c0: "contents caller_memory borrowed_buffer = Some [1, 2, 3]"
    by (simp add: contents_def load_def begin_of_def size_of_def borrowed_buffer_eq
        caller_memory_def block_at_def)
  have l0: "(0 :: nat) < length (blocks caller_memory)" by (simp add: caller_memory_def)
  note h = reserve_contract[OF storage_ok_borrowed sc, of 4]
  note e = reserve_borrowed_example
  from h gt e c0 have c1: "contents (caller_memory\<lparr>blocks := [Some [1, 2, 3], Some ([1, 2, 3] @ replicate 29 0)]\<rparr>)
     \<lparr>buf_m = Ptr 1 0, size_m = 3, capacity_m = 32, shrink_counter_m = 0, ref_m = False\<rparr>
     = Some [1, 2, 3]"
    by metis
  from h gt e rf l0 have b0: "block_at (caller_memory\<lparr>blocks := [Some [1, 2, 3], Some ([1, 2, 3] @ replicate 29 0)]\<rparr>) 0
     = block_at caller_memory 0"
    by blast
  have okr: "storage_ok roomy_memory roomy_buffer" using valid_roomy by (simp add: valid_def)
  have scr: "size_m roomy_buffer \<le> capacity_m roomy_buffer"
    and ltr: "4 < capacity_m roomy_buffer" and eqr: "8 = capacity_m roomy_buffer"
    by (simp_all add: roomy_buffer_def)
  note hr4 = reserve_contract[OF okr scr, of 4]
  note hr8 = reserve_contract[OF okr scr, of 8]
  from hr4 ltr have r4: "capacity_m (snd (snd (reserve 4 (roomy_memory, roomy_buffer)))) = 4"
    by blast
  from hr8 eqr have r8: "reserve 8 (roomy_memory, roomy_buffer) = (None, (roomy_memory, roomy_buffer))"
    by blast
  show ?thesis
    using storage_ok_borrowed sc rf gt ca e c0 c1 l0 b0 okr scr ltr r4 eqr r8 by blast
qed

section \<open>Slicing\<close>

lemma from_ptr_too_large:
  assumes "buf \<noteq> Null" "unat n > PTRDIFF_MAX"
  shows "fst (SimpleBufferT_from_ptr buf n m) = Some AllocationError"
proof -
  let ?c = "\<lparr>buf_m = Null, size_m = n, capacity_m = 0, shrink_counter_m = 0, ref_m = False\<rparr>"
  have n0: "n \<noteq> 0" using assms(2) by (auto simp: PTRDIFF_MAX_def)
  then have pos: "n > 0" by (simp add: word_greater_zero_iff)
  have m32: "unat (max DEFAULT_MINI_SIZE n) = max 32 (unat n)"
    by (simp add: max_def word_le_nat_alt DEFAULT_MINI_SIZE_def)
  have nc: "unat (next_capacity 0 n) > PTRDIFF_MAX"
    using pos assms(2) m32 by (simp add: next_capacity_def max_def)
  then have "\<not> can_alloc m (unat (next_capacity 0 n))" by (simp add: can_alloc_def)
  then have "fst (reserve n (m, ?c)) = Some AllocationError"
    using reserve_owned_null[of ?c n m] n0 by simp
  then show ?thesis
    using assms(1) pos
    by (auto simp: SimpleBufferT_from_ptr_def Let_def split: prod.splits option.splits)
qed

text \<open>
  Claim C5. \<^verbatim>\<open>slice(offset, count)\<close> is to return an empty buffer when \<open>offset \<ge> size()\<close>
  and \<open>size() - offset\<close> bytes when \<open>offset + count\<close> exceeds \<open>size()\<close>. The code tests only
  \<^verbatim>\<open>empty()\<close> and \<open>count + offset >= size()\<close>, both in \<^verbatim>\<open>size_t\<close>. On the 4-byte buffer,
  \<^verbatim>\<open>slice(5, 1)\<close> takes the length \<open>4 - 5\<close>, which wraps to \<open>2^64 - 1\<close>, and \<^verbatim>\<open>slice(2, 2^64 - 1)\<close>
  finds \<open>count + offset\<close> wrapped to 1 and keeps the count: each asks the allocator for
  \<open>2^64 - 1\<close> bytes and ends in \<^verbatim>\<open>std::bad_alloc\<close>, whatever the allocator can give. Inside
  the buffer the clamp works: \<^verbatim>\<open>slice(2, 100)\<close> returns the two last bytes in a block of
  its own.
\<close>

theorem slice_past_end_fails:
  "\<not> empty_of demo_buffer \<and> (5 :: size_t) \<ge> size_of demo_buffer \<and>
   fst (slice 5 1 (demo_memory\<lparr>max_alloc := k\<rparr>, demo_buffer)) = Some AllocationError \<and>
   unat (2 :: size_t) + unat (0xFFFFFFFFFFFFFFFF :: size_t) > unat (size_of demo_buffer) \<and>
   fst (slice 2 0xFFFFFFFFFFFFFFFF (demo_memory\<lparr>max_alloc := k\<rparr>, demo_buffer))
     = Some AllocationError \<and>
   slice 2 100 (demo_memory, demo_buffer) =
     (None, (demo_memory\<lparr>blocks := [Some [0xff, 0xee, 0xdd, 0xcc],
                                       Some ([0xdd, 0xcc] @ replicate 30 0)]\<rparr>,
             \<lparr>buf_m = Ptr 1 0, size_m = 2, capacity_m = 32, shrink_counter_m = 0,
              ref_m = False\<rparr>))"
proof -
  have eq: "(0xFFFFFFFFFFFFFFFF :: size_t) = - 1" by simp
  have big': "unat (0xFFFFFFFFFFFFFFFF :: size_t) > PTRDIFF_MAX"
    by (simp add: PTRDIFF_MAX_def)
  then have big: "unat (- 1 :: size_t) > PTRDIFF_MAX"
    by (simp only: eq)
  have fa: "fst (SimpleBufferT_from_ptr (Ptr a off) (- 1) m) = Some AllocationError" for a off m
    by (rule from_ptr_too_large[OF _ big]) simp
  have fb: "fst (SimpleBufferT_from_ptr (Ptr a off) 0xFFFFFFFFFFFFFFFF m) = Some AllocationError"
    for a off m
    by (rule from_ptr_too_large[OF _ big']) simp
  have a: "fst (slice 5 1 (demo_memory\<lparr>max_alloc := k\<rparr>, demo_buffer)) = Some AllocationError"
    by (simp add: slice_def empty_of_def size_of_def begin_of_def demo_buffer_def
        fa fb)
  have b: "fst (slice 2 0xFFFFFFFFFFFFFFFF (demo_memory\<lparr>max_alloc := k\<rparr>, demo_buffer))
     = Some AllocationError"
    by (simp add: slice_def empty_of_def size_of_def begin_of_def demo_buffer_def
        fa fb)
  let ?c = "\<lparr>buf_m = Null, size_m = 2, capacity_m = 0, shrink_counter_m = 0, ref_m = False\<rparr>"
  have nc: "next_capacity 0 2 = (32 :: size_t)"
    by (simp add: next_capacity_def DEFAULT_MINI_SIZE_def)
  have r: "reserve 2 (demo_memory, ?c) =
      (None, (demo_memory\<lparr>blocks := blocks demo_memory @ [Some (replicate 32 0)]\<rparr>,
              ?c\<lparr>capacity_m := 32, buf_m := Ptr (length (blocks demo_memory)) 0\<rparr>))"
    using reserve_owned_null[of ?c 2 demo_memory]
    by (simp add: nc can_alloc_def demo_memory_def PTRDIFF_MAX_def)
  have r32: "replicate 32 (0 :: byte) = [0, 0] @ replicate 30 0"
  proof -
    have "(32 :: nat) = 2 + 30" by simp
    then have "replicate 32 (0 :: byte) = replicate 2 0 @ replicate 30 0"
      by (simp only: replicate_add)
    then show ?thesis by (simp add: numeral_2_eq_2)
  qed
  have c: "slice 2 100 (demo_memory, demo_buffer) =
     (None, (demo_memory\<lparr>blocks := [Some [0xff, 0xee, 0xdd, 0xcc],
                                       Some ([0xdd, 0xcc] @ replicate 30 0)]\<rparr>,
             \<lparr>buf_m = Ptr 1 0, size_m = 2, capacity_m = 32, shrink_counter_m = 0,
              ref_m = False\<rparr>))"
    using r
    by (simp add: slice_def empty_of_def size_of_def begin_of_def demo_buffer_def
        SimpleBufferT_from_ptr_def Let_def memcpy_def load_def store_def block_at_def
        demo_memory_def r32)
  have d: "\<not> empty_of demo_buffer" "(5 :: size_t) \<ge> size_of demo_buffer"
    "unat (2 :: size_t) + unat (0xFFFFFFFFFFFFFFFF :: size_t) > unat (size_of demo_buffer)"
    by (simp_all add: empty_of_def size_of_def demo_buffer_def)
  show ?thesis using a b c d by blast
qed

end
